theory Spec2Isabelle
  imports Main
begin

section \<open>Data model of the reservation service\<close>

text \<open>
  The service keeps two lists in the browser's storage: the reservations and the seat
  statuses. A seat is addressed by its table (1..25) and its place at the table (1..10);
  a seat status adds who made the seat unavailable. The absence of a status means that
  the seat is free.
\<close>

datatype source = User | Admin

record seat =
  tableId :: int
  seatId :: int

record seatStatus = seat +
  source :: source

text \<open>A reservation without its id (what callers hand to the store), and with it.\<close>

record entry =
  name :: string
  phone :: string
  pack :: string
  seats :: "seat list"
  timestamp :: int

record ReservationEntry = entry +
  resId :: int

definition mkSeat :: "int \<Rightarrow> int \<Rightarrow> seat" where
  "mkSeat t s = \<lparr>tableId = t, seatId = s\<rparr>"

definition mkStatus :: "int \<Rightarrow> int \<Rightarrow> source \<Rightarrow> seatStatus" where
  "mkStatus t s src = \<lparr>tableId = t, seatId = s, source = src\<rparr>"

text \<open>The seat a status entry is about.\<close>

definition seatOf :: "seatStatus \<Rightarrow> seat" where
  "seatOf e = mkSeat (tableId e) (seatId e)"

section \<open>Seat status store\<close>

text \<open>
  \<open>statuses.some(s => s.tableId === t && s.seatId === s)\<close>: the test every operation uses
  to see whether a seat has a status entry.
\<close>

definition occupied :: "seatStatus list \<Rightarrow> int \<Rightarrow> int \<Rightarrow> bool" where
  "occupied statuses t s \<longleftrightarrow> list_ex (\<lambda>e. tableId e = t \<and> seatId e = s) statuses"

text \<open>
  \<open>bookSeats\<close>: the seats are visited in order; a seat with no entry in the list built
  so far gets one pushed at the end, a seat with an entry is skipped.
\<close>

fun bookSeats :: "seat list \<Rightarrow> source \<Rightarrow> seatStatus list \<Rightarrow> seatStatus list" where
  "bookSeats [] src statuses = statuses"
| "bookSeats (x # xs) src statuses =
     bookSeats xs src
       (if occupied statuses (tableId x) (seatId x) then statuses
        else statuses @ [mkStatus (tableId x) (seatId x) src])"

text \<open>\<open>unbookSeats\<close>: for each seat, every entry of that seat is filtered out.\<close>

fun unbookSeats :: "seat list \<Rightarrow> seatStatus list \<Rightarrow> seatStatus list" where
  "unbookSeats [] statuses = statuses"
| "unbookSeats (x # xs) statuses =
     unbookSeats xs (filter (\<lambda>e. \<not> (tableId e = tableId x \<and> seatId e = seatId x)) statuses)"

text \<open>
  \<open>findIndex\<close> of JavaScript arrays; \<open>None\<close> stands for the result -1. \<open>splice(i, 1)\<close>
  removes the element at index \<open>i\<close>.
\<close>

fun findIndex :: "('a \<Rightarrow> bool) \<Rightarrow> 'a list \<Rightarrow> nat option" where
  "findIndex P [] = None"
| "findIndex P (x # xs) =
     (if P x then Some 0 else map_option Suc (findIndex P xs))"

definition splice1 :: "nat \<Rightarrow> 'a list \<Rightarrow> 'a list" where
  "splice1 i xs = take i xs @ drop (Suc i) xs"

definition toggleSeat :: "int \<Rightarrow> int \<Rightarrow> seatStatus list \<Rightarrow> seatStatus list" where
  "toggleSeat t s statuses =
     (case findIndex (\<lambda>e. tableId e = t \<and> seatId e = s) statuses of
        Some i \<Rightarrow> splice1 i statuses
      | None \<Rightarrow> statuses @ [mkStatus t s Admin])"

section \<open>Seat assignment\<close>

definition isFree :: "seatStatus list \<Rightarrow> int \<Rightarrow> int \<Rightarrow> bool" where
  "isFree statuses t s \<longleftrightarrow> \<not> occupied statuses t s"

text \<open>The table pack: the first table, from 1 to 25, whose ten seats are all free.\<close>

definition tableIsFree :: "seatStatus list \<Rightarrow> int \<Rightarrow> bool" where
  "tableIsFree statuses t \<longleftrightarrow> list_all (\<lambda>s. isFree statuses t s) [1..10]"

definition tableSeats :: "int \<Rightarrow> seat list" where
  "tableSeats t = map (mkSeat t) [1..10]"

definition chooseTable :: "seatStatus list \<Rightarrow> seat list" where
  "chooseTable statuses =
     (case find (tableIsFree statuses) [1..25] of
        Some t \<Rightarrow> tableSeats t
      | None \<Rightarrow> [])"

text \<open>
  The duo pack: in each table the free seats are collected in ascending order; the first
  of them whose successor around the table (10 is followed by 1) is free too gives the
  pair, and the scan of the tables stops there.
\<close>

definition nextSeat :: "int \<Rightarrow> int" where
  "nextSeat s = (if s = 10 then 1 else s + 1)"

definition freeSeatsOfTable :: "seatStatus list \<Rightarrow> int \<Rightarrow> int list" where
  "freeSeatsOfTable statuses t = sort (filter (isFree statuses t) [1..10])"

definition duoInTable :: "seatStatus list \<Rightarrow> int \<Rightarrow> seat list option" where
  "duoInTable statuses t =
     (let freeSeats = freeSeatsOfTable statuses t in
      case find (\<lambda>s. nextSeat s \<in> set freeSeats) freeSeats of
        Some s \<Rightarrow> Some [mkSeat t s, mkSeat t (nextSeat s)]
      | None \<Rightarrow> None)"

fun chooseDuo :: "seatStatus list \<Rightarrow> int list \<Rightarrow> seat list" where
  "chooseDuo statuses [] = []"
| "chooseDuo statuses (t # ts) =
     (case duoInTable statuses t of
        Some pair \<Rightarrow> pair
      | None \<Rightarrow> chooseDuo statuses ts)"

text \<open>
  The fallback: all free seats, table by table, then up to \<open>count\<close> draws without
  replacement. \<open>Math.floor(Math.random() * freeSeats.length)\<close> is some index below the
  length of the pool; the model takes the draws from a function \<open>rnd\<close> (the \<open>i\<close>-th draw
  is \<open>rnd i\<close>, reduced modulo the length of the pool), so that every index the code can
  draw is the draw of some \<open>rnd\<close>. The second argument of \<open>pickRandom\<close> is the loop
  counter \<open>i\<close>, the third the number of rounds left, \<open>count - i\<close>.
\<close>

definition allFreeSeats :: "seatStatus list \<Rightarrow> seat list" where
  "allFreeSeats statuses =
     concat (map (\<lambda>t. map (mkSeat t) (filter (isFree statuses t) [1..10])) [1..25])"

fun pickRandom :: "(nat \<Rightarrow> nat) \<Rightarrow> nat \<Rightarrow> nat \<Rightarrow> seat list \<Rightarrow> seat list" where
  "pickRandom rnd i 0 freeSeats = []"
| "pickRandom rnd i (Suc n) freeSeats =
     (if freeSeats = [] then []
      else let idx = rnd i mod length freeSeats in
        freeSeats ! idx # pickRandom rnd (Suc i) n (splice1 idx freeSeats))"

text \<open>
  \<open>assignSeats\<close> returns the chosen seats and, as its last statement, books them for the
  user; the model returns the chosen seats together with the seat statuses it stored.
\<close>

definition chooseSeats :: "(nat \<Rightarrow> nat) \<Rightarrow> nat \<Rightarrow> seatStatus list \<Rightarrow> seat list" where
  "chooseSeats rnd count statuses =
     (let chosen = (if count = 10 then chooseTable statuses else []);
          chosen = (if count = 2 \<and> chosen = [] then chooseDuo statuses [1..25] else chosen)
      in if chosen = [] then pickRandom rnd 0 count (allFreeSeats statuses) else chosen)"

definition assignSeats ::
  "(nat \<Rightarrow> nat) \<Rightarrow> nat \<Rightarrow> seatStatus list \<Rightarrow> seat list \<times> seatStatus list" where
  "assignSeats rnd count statuses =
     (let chosen = chooseSeats rnd count statuses
      in (chosen, bookSeats chosen User statuses))"

section \<open>Reservation store\<close>

text \<open>\<open>{ id: newId, ...entry }\<close>: the entry with its id.\<close>

definition withId :: "int \<Rightarrow> entry \<Rightarrow> ReservationEntry" where
  "withId i e =
     \<lparr>name = name e, phone = phone e, pack = pack e, seats = seats e,
      timestamp = timestamp e, resId = i\<rparr>"

text \<open>
  \<open>addReservation\<close>: the new id is the id of the last stored reservation plus one, or 1
  when nothing is stored; the new reservation is pushed at the end.
\<close>

definition newId :: "ReservationEntry list \<Rightarrow> int" where
  "newId reservations =
     (if length reservations > 0 then resId (last reservations) + 1 else 1)"

definition addReservation :: "entry \<Rightarrow> ReservationEntry list \<Rightarrow> ReservationEntry list" where
  "addReservation e reservations = reservations @ [withId (newId reservations) e]"

text \<open>
  \<open>deleteReservation\<close> and \<open>updateReservation\<close> return their success flag and the
  stored list; they act on the first reservation with the id.
\<close>

definition deleteReservation ::
  "int \<Rightarrow> ReservationEntry list \<Rightarrow> bool \<times> ReservationEntry list" where
  "deleteReservation i reservations =
     (case findIndex (\<lambda>r. resId r = i) reservations of
        Some k \<Rightarrow> (True, splice1 k reservations)
      | None \<Rightarrow> (False, reservations))"

definition updateReservation ::
  "int \<Rightarrow> entry \<Rightarrow> ReservationEntry list \<Rightarrow> bool \<times> ReservationEntry list" where
  "updateReservation i e reservations =
     (case findIndex (\<lambda>r. resId r = i) reservations of
        Some k \<Rightarrow> (True, reservations[k := withId i e])
      | None \<Rightarrow> (False, reservations))"

section \<open>Reading the persisted lists\<close>

text \<open>
  The two lists are kept as JSON text. \<open>localStorage.getItem\<close> gives \<open>null\<close> (here
  \<open>None\<close>) or the stored text; \<open>JSON.parse\<close> is the browser's and is a parameter of the
  model: \<open>parse txt = None\<close> when it throws on \<open>txt\<close>. Both readers wrap everything in
  \<open>try\<close>/\<open>catch\<close> and return the empty array from the handler.
\<close>

datatype json =
    JNull
  | JBool bool
  | JNum int
  | JStr string
  | JArr "json list"
  | JObj "(string \<times> json) list"

text \<open>
  \<open>getReservations\<close> returns what was parsed as it is (the cast to
  \<open>ReservationEntry[]\<close> checks nothing); an absent or empty text is not parsed.
\<close>

definition getReservations :: "(string \<Rightarrow> json option) \<Rightarrow> string option \<Rightarrow> json" where
  "getReservations parse raw =
     (case raw of
        None \<Rightarrow> JArr []
      | Some txt \<Rightarrow>
          if txt = [] then JArr []
          else (case parse txt of
                  None \<Rightarrow> JArr []
                | Some v \<Rightarrow> v))"

text \<open>
  \<open>getSeatStatuses\<close> maps over the parsed array. An item that is an object (or an
  array, whose \<open>typeof\<close> is \<open>'object'\<close> too) gives its \<open>tableId\<close> and \<open>seatId\<close>
  properties (a key written twice holds its last value), \<open>None\<close> standing for
  \<open>undefined\<close>, and the source \<open>'admin'\<close> only when its
  \<open>source\<close> property is that string; any other item gives the entry (0, 0, user). On a
  parsed value that is not an array the call of \<open>map\<close> throws, and the handler returns
  the empty array.
\<close>

record rawStatus =
  rawTableId :: "json option"
  rawSeatId :: "json option"
  rawSource :: source

definition statusOfItem :: "json \<Rightarrow> rawStatus" where
  "statusOfItem item =
     (case item of
        JObj props \<Rightarrow>
          \<lparr>rawTableId = map_of (rev props) ''tableId'',
           rawSeatId = map_of (rev props) ''seatId'',
           rawSource =
             (if map_of (rev props) ''source'' = Some (JStr ''admin'') then Admin else User)\<rparr>
      | JArr _ \<Rightarrow> \<lparr>rawTableId = None, rawSeatId = None, rawSource = User\<rparr>
      | _ \<Rightarrow> \<lparr>rawTableId = Some (JNum 0), rawSeatId = Some (JNum 0), rawSource = User\<rparr>)"

definition getSeatStatuses :: "(string \<Rightarrow> json option) \<Rightarrow> string option \<Rightarrow> rawStatus list" where
  "getSeatStatuses parse raw =
     (case raw of
        None \<Rightarrow> []
      | Some txt \<Rightarrow>
          if txt = [] then []
          else (case parse txt of
                  None \<Rightarrow> []
                | Some (JArr items) \<Rightarrow> map statusOfItem items
                | Some _ \<Rightarrow> []))"

text \<open>
  The rest of the model works on the lists as the service's types declare them, that is,
  on what these readers return for text that the service's own writers stored.
\<close>

section \<open>The public reservation form and the admin dashboard\<close>

text \<open>
  Both components work on the two stored lists; after each of its operations the
  dashboard reloads its copy of the reservations, so the copy it searches is the stored
  list.
\<close>

record store =
  reservations :: "ReservationEntry list"
  seatStatuses :: "seatStatus list"

text \<open>
  \<open>toLowerCase\<close> on the characters a string of this model can hold (code units below
  256): the letters A to Z and the accented capitals of Latin-1 move up by 32.
  \<open>includesStr\<close> is \<open>String.prototype.includes\<close>: it looks for the pattern at every
  position.
\<close>

definition lowerChar :: "char \<Rightarrow> char" where
  "lowerChar c =
     (let n = (of_char c :: nat) in
      if (65 \<le> n \<and> n \<le> 90) \<or> (192 \<le> n \<and> n \<le> 222 \<and> n \<noteq> 215)
      then char_of (n + 32) else c)"

definition toLowerCase :: "string \<Rightarrow> string" where
  "toLowerCase str = map lowerChar str"

fun includesStr :: "string \<Rightarrow> string \<Rightarrow> bool" where
  "includesStr [] pat = (pat = [])"
| "includesStr (c # cs) pat = (take (length pat) (c # cs) = pat \<or> includesStr cs pat)"

text \<open>
  A seat of the plan carries a global id (1..250); the components turn it into table and
  place with \<open>Math.floor((id - 1) / 10) + 1\<close> and \<open>(id - 1) % 10 + 1\<close>. The remainder of
  JavaScript takes the sign of the dividend.
\<close>

definition jsRem :: "int \<Rightarrow> int \<Rightarrow> int" where
  "jsRem a b = (if 0 \<le> a then a mod \<bar>b\<bar> else - ((- a) mod \<bar>b\<bar>))"

definition seatOfGlobal :: "int \<Rightarrow> seat" where
  "seatOfGlobal i = mkSeat ((i - 1) div 10 + 1) (jsRem (i - 1) 10 + 1)"

subsection \<open>Reservation form\<close>

text \<open>
  \<open>finalizePackReservation\<close>: the pack's name gives the number of seats, \<open>assignSeats\<close>
  chooses and books them, and the reservation is added. \<open>now\<close> is the value of
  \<open>Date.now()\<close>.
\<close>

definition packSeatCount :: "string \<Rightarrow> nat" where
  "packSeatCount packName =
     (if includesStr (toLowerCase packName) ''table'' then 10
      else if includesStr (toLowerCase packName) ''duo'' then 2
      else 1)"

definition finalizePackReservation ::
  "(nat \<Rightarrow> nat) \<Rightarrow> int \<Rightarrow> string option \<Rightarrow> string \<Rightarrow> string \<Rightarrow> store \<Rightarrow> store" where
  "finalizePackReservation rnd now selectedPack formName formPhone st =
     (case selectedPack of
        None \<Rightarrow> st
      | Some packName \<Rightarrow>
          let (assigned, statuses) = assignSeats rnd (packSeatCount packName) (seatStatuses st);
              e = \<lparr>name = formName, phone = formPhone, pack = packName,
                   seats = assigned, timestamp = now\<rparr>
          in \<lparr>reservations = addReservation e (reservations st), seatStatuses = statuses\<rparr>)"

text \<open>
  \<open>finalizeSeatReservation\<close>: the seats picked on the plan (their global ids) name the
  pack by their number, the reservation is added and the seats are booked.
\<close>

definition packNameOfCount :: "nat \<Rightarrow> string" where
  "packNameOfCount n =
     (if n = 1 then ''Ticket seul''
      else if n = 2 then ''Pack duo''
      else if n = 10 then ''Pack table compl'' @ [CHR 0xE8] @ ''te''
      else ''S'' @ [CHR 0xE9] @ ''lection personnalis'' @ [CHR 0xE9] @ ''e'')"

definition finalizeSeatReservation ::
  "int \<Rightarrow> int list \<Rightarrow> string \<Rightarrow> string \<Rightarrow> store \<Rightarrow> store" where
  "finalizeSeatReservation now selectedSeats formName formPhone st =
     (if length selectedSeats = 0 then st
      else
        let packName = packNameOfCount (length selectedSeats);
            chosen = map seatOfGlobal selectedSeats;
            e = \<lparr>name = formName, phone = formPhone, pack = packName,
                 seats = chosen, timestamp = now\<rparr>
        in \<lparr>reservations = addReservation e (reservations st),
            seatStatuses = bookSeats chosen User (seatStatuses st)\<rparr>)"

subsection \<open>Admin dashboard\<close>

record adminForm =
  editingId :: "int option"
  newName :: string
  newPhone :: string
  selectedPackAdmin :: string
  selectedTableAdmin :: "int option"
  selectedSeatAdmin :: "int option"

text \<open>
  \<open>addReservationAdmin\<close> and \<open>updateReservationAdmin\<close> build the seat list with the same
  statements: for a pack whose lower-cased name includes "table", the seats of the
  selected table that have no status entry; for a name that includes "duo", the selected
  seat and its successor (\<open>first === 10 ? 1 : first + 1\<close>, which is \<open>nextSeat\<close>), or
  two assigned seats when no seat is selected; otherwise the
  selected seat, or one assigned seat. The statuses are returned too, since
  \<open>assignSeats\<close> books what it chooses.
\<close>

definition adminSeatList ::
  "(nat \<Rightarrow> nat) \<Rightarrow> string \<Rightarrow> int \<Rightarrow> int option \<Rightarrow> seatStatus list
     \<Rightarrow> seat list \<times> seatStatus list" where
  "adminSeatList rnd packName t selectedSeat statuses =
     (let packLower = toLowerCase packName in
      if includesStr packLower ''table'' then
        (map (mkSeat t) (filter (\<lambda>s. \<not> occupied statuses t s) [1..10]), statuses)
      else if includesStr packLower ''duo'' then
        (case selectedSeat of
           Some first \<Rightarrow>
             ([mkSeat t first, mkSeat t (nextSeat first)], statuses)
         | None \<Rightarrow> assignSeats rnd 2 statuses)
      else
        (case selectedSeat of
           Some s \<Rightarrow> ([mkSeat t s], statuses)
         | None \<Rightarrow> assignSeats rnd 1 statuses))"

definition addReservationAdmin ::
  "(nat \<Rightarrow> nat) \<Rightarrow> int \<Rightarrow> adminForm \<Rightarrow> store \<Rightarrow> store" where
  "addReservationAdmin rnd now form st =
     (if newName form = [] \<or> newPhone form = [] \<or> selectedPackAdmin form = [] then st
      else
        (case selectedTableAdmin form of
           None \<Rightarrow> st
         | Some t \<Rightarrow>
             let (chosen, statuses) =
                   adminSeatList rnd (selectedPackAdmin form) t (selectedSeatAdmin form)
                     (seatStatuses st);
                 e = \<lparr>name = newName form, phone = newPhone form,
                      pack = selectedPackAdmin form, seats = chosen, timestamp = now\<rparr>
             in \<lparr>reservations = addReservation e (reservations st),
                 seatStatuses =
                   (if length chosen > 0 then bookSeats chosen User statuses else statuses)\<rparr>))"

text \<open>
  \<open>updateReservationAdmin\<close>: the new seats are computed first, then the old seats are
  unbooked, the reservation is replaced and the new seats are booked.
\<close>

definition updateReservationAdmin ::
  "(nat \<Rightarrow> nat) \<Rightarrow> int \<Rightarrow> adminForm \<Rightarrow> store \<Rightarrow> store" where
  "updateReservationAdmin rnd now form st =
     (case editingId form of
        None \<Rightarrow> st
      | Some eid \<Rightarrow>
          if newName form = [] \<or> newPhone form = [] \<or> selectedPackAdmin form = [] then st
          else
            (case selectedTableAdmin form of
               None \<Rightarrow> st
             | Some t \<Rightarrow>
                 (case find (\<lambda>r. resId r = eid) (reservations st) of
                    None \<Rightarrow> st
                  | Some oldReservation \<Rightarrow>
                      let (newSeats, statuses) =
                            adminSeatList rnd (selectedPackAdmin form) t (selectedSeatAdmin form)
                              (seatStatuses st);
                          statuses =
                            (if length (seats oldReservation) > 0
                             then unbookSeats (seats oldReservation) statuses else statuses);
                          e = \<lparr>name = newName form, phone = newPhone form,
                               pack = selectedPackAdmin form, seats = newSeats,
                               timestamp = now\<rparr>
                      in \<lparr>reservations = snd (updateReservation eid e (reservations st)),
                          seatStatuses =
                            (if length newSeats > 0 then bookSeats newSeats User statuses
                             else statuses)\<rparr>)))"

text \<open>
  The dashboard's own \<open>deleteReservation\<close> unbooks the seats of the reservation and
  removes it; an unknown id changes nothing.
\<close>

definition deleteReservationAdmin :: "int \<Rightarrow> store \<Rightarrow> store" where
  "deleteReservationAdmin i st =
     (case find (\<lambda>r. resId r = i) (reservations st) of
        None \<Rightarrow> st
      | Some reservation \<Rightarrow>
          \<lparr>reservations = snd (deleteReservation i (reservations st)),
           seatStatuses = unbookSeats (seats reservation) (seatStatuses st)\<rparr>)"

text \<open>\<open>toggleSeatAdmin\<close> blocks or frees the seat with the given global id.\<close>

definition toggleSeatAdmin :: "int \<Rightarrow> store \<Rightarrow> store" where
  "toggleSeatAdmin i st =
     st\<lparr>seatStatuses :=
          toggleSeat (tableId (seatOfGlobal i)) (seatId (seatOfGlobal i)) (seatStatuses st)\<rparr>"

text \<open>
  \<open>getAvailableSeats\<close>: the places of the selected table that the dashboard offers for
  selection. The seats of the reservation being edited count as free; for a duo pack
  only places whose successor is offered too remain.
\<close>

definition getAvailableSeats :: "adminForm \<Rightarrow> store \<Rightarrow> int list" where
  "getAvailableSeats form st =
     (case selectedTableAdmin form of
        None \<Rightarrow> []
      | Some t \<Rightarrow>
          let editingSeats =
                (case editingId form of
                   None \<Rightarrow> []
                 | Some eid \<Rightarrow>
                     (case find (\<lambda>r. resId r = eid) (reservations st) of
                        None \<Rightarrow> []
                      | Some r \<Rightarrow> seats r));
              freeSeats =
                filter (\<lambda>s. \<not> occupied (seatStatuses st) t s
                             \<or> list_ex (\<lambda>x. tableId x = t \<and> seatId x = s) editingSeats) [1..10]
          in if selectedPackAdmin form \<noteq> []
                \<and> includesStr (toLowerCase (selectedPackAdmin form)) ''duo''
             then filter (\<lambda>seatNum. nextSeat seatNum \<in> set freeSeats) freeSeats
             else freeSeats)"

section \<open>Seat states, operations and invariants\<close>

text \<open>
  The state of a seat as both components display it (\<open>applySeatStatuses\<close>): the first
  status entry of the seat decides; no entry means free.
\<close>

datatype seatState = Free | UserBooked | AdminBlocked

definition stateOfSeat :: "seatStatus list \<Rightarrow> int \<Rightarrow> int \<Rightarrow> seatState" where
  "stateOfSeat statuses t s =
     (case find (\<lambda>e. tableId e = t \<and> seatId e = s) statuses of
        None \<Rightarrow> Free
      | Some status \<Rightarrow> if source status = Admin then AdminBlocked else UserBooked)"

text \<open>The operations of the service that write the seat statuses, and their runs.\<close>

datatype storeOp =
    BookSeats "seat list" source
  | UnbookSeats "seat list"
  | ToggleSeat int int
  | AssignSeats "nat \<Rightarrow> nat" nat

fun applyOp :: "storeOp \<Rightarrow> seatStatus list \<Rightarrow> seatStatus list" where
  "applyOp (BookSeats xs src) statuses = bookSeats xs src statuses"
| "applyOp (UnbookSeats xs) statuses = unbookSeats xs statuses"
| "applyOp (ToggleSeat t s) statuses = toggleSeat t s statuses"
| "applyOp (AssignSeats rnd count) statuses = snd (assignSeats rnd count statuses)"

definition runOps :: "storeOp list \<Rightarrow> seatStatus list" where
  "runOps ops = foldl (\<lambda>statuses op. applyOp op statuses) [] ops"

text \<open>At most one status entry per seat.\<close>

definition oneEntryPerSeat :: "seatStatus list \<Rightarrow> bool" where
  "oneEntryPerSeat statuses \<longleftrightarrow> distinct (map seatOf statuses)"

text \<open>The operations of the reservation store, and their runs.\<close>

datatype reservationOp =
    AddReservation entry
  | DeleteReservation int
  | UpdateReservation int entry

fun applyReservationOp :: "reservationOp \<Rightarrow> ReservationEntry list \<Rightarrow> ReservationEntry list" where
  "applyReservationOp (AddReservation e) rs = addReservation e rs"
| "applyReservationOp (DeleteReservation i) rs = snd (deleteReservation i rs)"
| "applyReservationOp (UpdateReservation i e) rs = snd (updateReservation i e rs)"

definition runReservationOps :: "reservationOp list \<Rightarrow> ReservationEntry list" where
  "runReservationOps ops = foldl (\<lambda>rs op. applyReservationOp op rs) [] ops"

text \<open>The ids grow strictly along the stored list and are positive.\<close>

definition idsIncreasing :: "ReservationEntry list \<Rightarrow> bool" where
  "idsIncreasing rs \<longleftrightarrow> sorted_wrt (<) (map resId rs) \<and> list_all (\<lambda>r. 1 \<le> resId r) rs"

text \<open>
  Consistency of the two lists: the seats lists of the reservations are pairwise
  disjoint, and together they are the seats whose status entry has the source user.
\<close>

definition reservedSeats :: "ReservationEntry list \<Rightarrow> seat list" where
  "reservedSeats rs = concat (map seats rs)"

definition userSeats :: "seatStatus list \<Rightarrow> seat list" where
  "userSeats statuses = map seatOf (filter (\<lambda>e. source e = User) statuses)"

fun disjointSeats :: "ReservationEntry list \<Rightarrow> bool" where
  "disjointSeats [] = True"
| "disjointSeats (r # rs) \<longleftrightarrow>
     list_all (\<lambda>x. x \<notin> set (reservedSeats rs)) (seats r) \<and> disjointSeats rs"

definition consistent :: "store \<Rightarrow> bool" where
  "consistent st \<longleftrightarrow>
     disjointSeats (reservations st)
     \<and> set (reservedSeats (reservations st)) = set (userSeats (seatStatuses st))
     \<and> oneEntryPerSeat (seatStatuses st)"

text \<open>
  The operations of the two components on reservations, and the check that the views
  make before them: a seat picked on the public plan has no status entry, and a seat
  selected in the dashboard is one that \<open>getAvailableSeats\<close> offers (in add mode no
  reservation is being edited).
\<close>

datatype request =
    PackReservation "nat \<Rightarrow> nat" int "string option" string string
  | SeatReservation int "int list" string string
  | AdminAdd "nat \<Rightarrow> nat" int adminForm
  | AdminUpdate "nat \<Rightarrow> nat" int adminForm
  | AdminDelete int

fun perform :: "request \<Rightarrow> store \<Rightarrow> store" where
  "perform (PackReservation rnd now selectedPack formName formPhone) st =
     finalizePackReservation rnd now selectedPack formName formPhone st"
| "perform (SeatReservation now selectedSeats formName formPhone) st =
     finalizeSeatReservation now selectedSeats formName formPhone st"
| "perform (AdminAdd rnd now form) st = addReservationAdmin rnd now form st"
| "perform (AdminUpdate rnd now form) st = updateReservationAdmin rnd now form st"
| "perform (AdminDelete i) st = deleteReservationAdmin i st"

definition seatOffered :: "adminForm \<Rightarrow> store \<Rightarrow> bool" where
  "seatOffered form st \<longleftrightarrow>
     (case selectedSeatAdmin form of
        None \<Rightarrow> True
      | Some s \<Rightarrow> s \<in> set (getAvailableSeats form st))"

fun validated :: "request \<Rightarrow> store \<Rightarrow> bool" where
  "validated (PackReservation rnd now selectedPack formName formPhone) st = True"
| "validated (SeatReservation now selectedSeats formName formPhone) st =
     list_all (\<lambda>i. \<not> occupied (seatStatuses st)
                      (tableId (seatOfGlobal i)) (seatId (seatOfGlobal i))) selectedSeats"
| "validated (AdminAdd rnd now form) st = (editingId form = None \<and> seatOffered form st)"
| "validated (AdminUpdate rnd now form) st = seatOffered form st"
| "validated (AdminDelete i) st = True"

definition emptyStore :: store where
  "emptyStore = \<lparr>reservations = [], seatStatuses = []\<rparr>"

text \<open>Whether a table has two free seats next to each other around the table.\<close>

definition hasAdjacentFreePair :: "seatStatus list \<Rightarrow> int \<Rightarrow> bool" where
  "hasAdjacentFreePair statuses t \<longleftrightarrow>
     list_ex (\<lambda>s. isFree statuses t s \<and> isFree statuses t (nextSeat s)) [1..10]"

text \<open>The entry that \<open>bookSeats\<close> pushes for a seat booked by a user.\<close>

definition userStatus :: "seat \<Rightarrow> seatStatus" where
  "userStatus x = mkStatus (tableId x) (seatId x) User"

section \<open>Example data\<close>

text \<open>Seat plans used to instantiate the theorems below.\<close>

definition fullHouse :: "seatStatus list" where
  "fullHouse = concat (map (\<lambda>t. map (\<lambda>s. mkStatus t s User) [1..10]) [1..25])"

definition table1Taken :: "seatStatus list" where
  "table1Taken = [mkStatus 1 4 Admin]"

definition table3Tail :: "seatStatus list" where
  "table3Tail =
     map (\<lambda>s. mkStatus 1 s User) [1..10]
     @ map (\<lambda>s. mkStatus 2 s User) [1, 2, 3, 4, 6, 7, 8, 9, 10]
     @ map (\<lambda>s. mkStatus 3 s Admin) [1..8]"

definition table1Ends :: "seatStatus list" where
  "table1Ends = map (\<lambda>s. mkStatus 1 s User) [2..9]"

definition sampleEntry :: entry where
  "sampleEntry = \<lparr>name = ''Amal'', phone = ''0600'', pack = ''Ticket seul'', seats = [], timestamp = 0\<rparr>"

definition tablePackForm :: adminForm where
  "tablePackForm =
     \<lparr>editingId = Some 1, newName = ''Amal'', newPhone = ''0600'',
      selectedPackAdmin = ''Pack table'', selectedTableAdmin = Some 1, selectedSeatAdmin = None\<rparr>"

definition oneTicketStore :: store where
  "oneTicketStore =
     \<lparr>reservations = [withId 1 (sampleEntry\<lparr>seats := [mkSeat 1 4]\<rparr>)],
      seatStatuses = [mkStatus 1 4 User]\<rparr>"

definition ticketForm :: adminForm where
  "ticketForm =
     \<lparr>editingId = None, newName = ''Amal'', newPhone = ''0600'',
      selectedPackAdmin = ''Ticket seul'', selectedTableAdmin = Some 1, selectedSeatAdmin = Some 1\<rparr>"

definition duoEditForm :: adminForm where
  "duoEditForm =
     \<lparr>editingId = Some 1, newName = ''Amal'', newPhone = ''0600'',
      selectedPackAdmin = ''Pack duo'', selectedTableAdmin = Some 1, selectedSeatAdmin = Some 4\<rparr>"

text \<open>
  A stand-in for \<open>JSON.parse\<close> that agrees with it on the four texts used below: the
  empty array, the empty object, the array holding the number 7, and a text that is not
  JSON.
\<close>

definition sampleParse :: "string \<Rightarrow> json option" where
  "sampleParse txt =
     (if txt = ''[]'' then Some (JArr [])
      else if txt = ''{}'' then Some (JObj [])
      else if txt = ''[7]'' then Some (JArr [JNum 7])
      else None)"

section \<open>Basic facts about seats and status entries\<close>

lemma mkSeat_eta [simp]: "mkSeat (tableId (x::seat)) (seatId x) = x"
  by (simp add: mkSeat_def)

lemma mkSeat_sel [simp]: "tableId (mkSeat t s) = t" "seatId (mkSeat t s) = s"
  by (simp_all add: mkSeat_def)

lemma mkSeat_inj [simp]: "mkSeat t s = mkSeat t' s' \<longleftrightarrow> t = t' \<and> s = s'"
  by (simp add: mkSeat_def)

lemma mkStatus_sel [simp]:
  "tableId (mkStatus t s src) = t" "seatId (mkStatus t s src) = s" "source (mkStatus t s src) = src"
  by (simp_all add: mkStatus_def)

lemma seatOf_mkStatus [simp]: "seatOf (mkStatus t s src) = mkSeat t s"
  by (simp add: seatOf_def)

lemma seatOf_eq_iff: "seatOf e = x \<longleftrightarrow> tableId e = tableId x \<and> seatId e = seatId x"
  by (cases x) (auto simp add: seatOf_def mkSeat_def)

lemma occupied_iff: "occupied statuses t s \<longleftrightarrow> mkSeat t s \<in> seatOf ` set statuses"
  by (auto simp add: occupied_def list_ex_iff seatOf_def image_iff)

lemma occupied_seat_iff: "occupied statuses (tableId x) (seatId x) \<longleftrightarrow> (x::seat) \<in> seatOf ` set statuses"
  by (simp add: occupied_iff)

lemma bookSeats_append:
  "\<exists>new. bookSeats xs src statuses = statuses @ new
     \<and> (\<forall>e\<in>set new. source e = src)
     \<and> distinct (map seatOf new)
     \<and> seatOf ` set new = set xs - seatOf ` set statuses"
proof (induction xs arbitrary: statuses)
  case Nil
  show ?case by simp
next
  case (Cons x xs)
  show ?case
  proof (cases "occupied statuses (tableId x) (seatId x)")
    case True
    from Cons.IH [of statuses] obtain new where
      n: "bookSeats xs src statuses = statuses @ new" "\<forall>e\<in>set new. source e = src"
         "distinct (map seatOf new)" "seatOf ` set new = set xs - seatOf ` set statuses"
      by blast
    from True have "x \<in> seatOf ` set statuses" by (simp add: occupied_seat_iff)
    with n True show ?thesis by auto
  next
    case False
    let ?st = "statuses @ [mkStatus (tableId x) (seatId x) src]"
    from Cons.IH [of ?st] obtain new where
      n: "bookSeats xs src ?st = ?st @ new" "\<forall>e\<in>set new. source e = src"
         "distinct (map seatOf new)" "seatOf ` set new = set xs - seatOf ` set ?st"
      by blast
    from False have nx: "x \<notin> seatOf ` set statuses" by (simp add: occupied_seat_iff)
    let ?new = "mkStatus (tableId x) (seatId x) src # new"
    have 1: "bookSeats (x # xs) src statuses = statuses @ ?new" using False n(1) by simp
    have 2: "\<forall>e\<in>set ?new. source e = src" using n(2) by simp
    have 3: "distinct (map seatOf ?new)" using n(3,4) by auto
    have 4: "seatOf ` set ?new = set (x # xs) - seatOf ` set statuses" using n(4) nx by auto
    from 1 2 3 4 show ?thesis by blast
  qed
qed

lemma bookSeats_free_distinct:
  "distinct xs \<Longrightarrow> set xs \<inter> seatOf ` set statuses = {} \<Longrightarrow>
   bookSeats xs src statuses = statuses @ map (\<lambda>x. mkStatus (tableId x) (seatId x) src) xs"
proof (induction xs arbitrary: statuses)
  case Nil
  show ?case by simp
next
  case (Cons x xs)
  from Cons.prems have nx: "\<not> occupied statuses (tableId x) (seatId x)"
    by (simp add: occupied_seat_iff)
  let ?st = "statuses @ [mkStatus (tableId x) (seatId x) src]"
  have "set xs \<inter> seatOf ` set ?st = {}" using Cons.prems by auto
  with Cons.IH [of ?st] Cons.prems have "bookSeats xs src ?st = ?st @ map (\<lambda>x. mkStatus (tableId x) (seatId x) src) xs"
    by simp
  with nx show ?case by simp
qed

lemma unbookSeats_eq: "unbookSeats xs statuses = filter (\<lambda>e. seatOf e \<notin> set xs) statuses"
proof (induction xs arbitrary: statuses)
  case Nil show ?case by simp
next
  case (Cons x xs)
  have "(\<lambda>e. \<not> (tableId e = tableId x \<and> seatId e = seatId x)) = (\<lambda>e. seatOf e \<noteq> x)"
    by (simp add: seatOf_eq_iff)
  then show ?case using Cons.IH by (simp add: conj_commute)
qed

section \<open>Facts about the seat assignment\<close>

lemma isFree_iff: "isFree statuses t s \<longleftrightarrow> mkSeat t s \<notin> seatOf ` set statuses"
  by (simp add: isFree_def occupied_iff)

lemma splice1_set: "i < length xs \<Longrightarrow> set (splice1 i xs) \<subseteq> set xs"
  by (auto simp add: splice1_def dest: in_set_takeD in_set_dropD)

lemma splice1_length: "i < length xs \<Longrightarrow> length (splice1 i xs) = length xs - 1"
  by (simp add: splice1_def)

lemma splice1_nth_decomp: "i < length xs \<Longrightarrow> xs = take i xs @ xs ! i # drop (Suc i) xs"
  by (simp add: id_take_nth_drop)

lemma splice1_distinct:
  assumes "i < length xs" "distinct xs"
  shows "distinct (splice1 i xs) \<and> xs ! i \<notin> set (splice1 i xs)
         \<and> set xs = insert (xs ! i) (set (splice1 i xs))"
proof -
  from assms(1) have d: "xs = take i xs @ xs ! i # drop (Suc i) xs"
    by (rule splice1_nth_decomp)
  from assms(2) have "distinct (take i xs @ xs ! i # drop (Suc i) xs)"
    using d by simp
  then have 1: "distinct (splice1 i xs)" and 2: "xs ! i \<notin> set (splice1 i xs)"
    by (auto simp add: splice1_def)
  have "set xs = set (take i xs @ xs ! i # drop (Suc i) xs)" using d by simp
  then have 3: "set xs = insert (xs ! i) (set (splice1 i xs))"
    by (simp add: splice1_def)
  from 1 2 3 show ?thesis by blast
qed

lemma pickRandom_distinct:
  "distinct pool \<Longrightarrow> distinct (pickRandom rnd i n pool) \<and> set (pickRandom rnd i n pool) \<subseteq> set pool"
proof (induction n arbitrary: i pool)
  case 0
  show ?case by simp
next
  case (Suc n)
  show ?case
  proof (cases "pool = []")
    case True then show ?thesis by simp
  next
    case False
    define idx where "idx = rnd i mod length pool"
    from False have lt: "idx < length pool" by (simp add: idx_def)
    from splice1_distinct [OF lt Suc.prems]
    have s: "distinct (splice1 idx pool)" "pool ! idx \<notin> set (splice1 idx pool)"
        "set pool = insert (pool ! idx) (set (splice1 idx pool))" by blast+
    from Suc.IH [OF s(1), of "Suc i"]
    have ih: "distinct (pickRandom rnd (Suc i) n (splice1 idx pool))"
      "set (pickRandom rnd (Suc i) n (splice1 idx pool)) \<subseteq> set (splice1 idx pool)" by blast+
    have eq: "pickRandom rnd i (Suc n) pool = pool ! idx # pickRandom rnd (Suc i) n (splice1 idx pool)"
      using False by (simp add: idx_def Let_def)
    show ?thesis unfolding eq using ih s by auto
  qed
qed

lemma pickRandom_all:
  "distinct pool \<Longrightarrow> length pool \<le> n \<Longrightarrow>
   set (pickRandom rnd i n pool) = set pool \<and> length (pickRandom rnd i n pool) = length pool"
proof (induction n arbitrary: i pool)
  case 0
  then show ?case by simp
next
  case (Suc n)
  show ?case
  proof (cases "pool = []")
    case True then show ?thesis by simp
  next
    case False
    define idx where "idx = rnd i mod length pool"
    from False have lt: "idx < length pool" by (simp add: idx_def)
    from splice1_distinct [OF lt Suc.prems(1)]
    have s: "distinct (splice1 idx pool)" "pool ! idx \<notin> set (splice1 idx pool)"
        "set pool = insert (pool ! idx) (set (splice1 idx pool))" by blast+
    have len: "length (splice1 idx pool) = length pool - 1" using lt by (rule splice1_length)
    then have "length (splice1 idx pool) \<le> n" using Suc.prems(2) by simp
    from Suc.IH [OF s(1) this, of "Suc i"]
    have ih: "set (pickRandom rnd (Suc i) n (splice1 idx pool)) = set (splice1 idx pool)"
      "length (pickRandom rnd (Suc i) n (splice1 idx pool)) = length (splice1 idx pool)" by blast+
    have eq: "pickRandom rnd i (Suc n) pool = pool ! idx # pickRandom rnd (Suc i) n (splice1 idx pool)"
      using False by (simp add: idx_def Let_def)
    show ?thesis unfolding eq using ih s len False by (auto simp add: Suc_pred)
  qed
qed

lemma pickRandom_length:
  "length (pickRandom rnd i n pool) = min n (length pool)"
proof (induction n arbitrary: i pool)
  case 0
  show ?case by simp
next
  case (Suc n)
  show ?case
  proof (cases "pool = []")
    case True then show ?thesis by simp
  next
    case False
    define idx where "idx = rnd i mod length pool"
    from False have lt: "idx < length pool" by (simp add: idx_def)
    have len: "length (splice1 idx pool) = length pool - 1" using lt by (rule splice1_length)
    have eq: "pickRandom rnd i (Suc n) pool = pool ! idx # pickRandom rnd (Suc i) n (splice1 idx pool)"
      using False by (simp add: idx_def Let_def)
    show ?thesis unfolding eq using Suc.IH [of "Suc i" "splice1 idx pool"] len False
      by (cases pool) auto
  qed
qed

lemma allFreeSeats_set:
  "set (allFreeSeats statuses) = {mkSeat t s | t s. 1 \<le> t \<and> t \<le> 25 \<and> 1 \<le> s \<and> s \<le> 10 \<and> isFree statuses t s}"
  by (auto simp add: allFreeSeats_def)

lemma distinct_concat_tables:
  "distinct ts \<Longrightarrow> (\<And>t. distinct (f t)) \<Longrightarrow> distinct (concat (map (\<lambda>t. map (mkSeat t) (f t)) ts))"
proof (induction ts)
  case Nil show ?case by simp
next
  case (Cons t ts)
  then show ?case by (auto simp add: distinct_map inj_on_def)
qed

lemma allFreeSeats_distinct: "distinct (allFreeSeats statuses)"
  unfolding allFreeSeats_def by (rule distinct_concat_tables) simp_all

lemma allFreeSeats_free: "set (allFreeSeats statuses) \<inter> seatOf ` set statuses = {}"
  unfolding allFreeSeats_set isFree_iff by (auto intro: rev_image_eqI)

lemma find_sorted_first:
  fixes x :: int
  shows "sorted xs \<Longrightarrow> x \<in> set xs \<Longrightarrow> P x \<Longrightarrow> (\<forall>y\<in>set xs. y < x \<longrightarrow> \<not> P y) \<Longrightarrow> find P xs = Some x"
proof (induction xs)
  case Nil then show ?case by simp
next
  case (Cons a xs)
  show ?case
  proof (cases "a = x")
    case True with Cons.prems show ?thesis by simp
  next
    case False
    with Cons.prems have "x \<in> set xs" "a < x" by auto
    with Cons.prems have "\<not> P a" by simp
    moreover have "find P xs = Some x" using Cons.IH Cons.prems \<open>x \<in> set xs\<close> by simp
    ultimately show ?thesis by simp
  qed
qed

lemma find_SomeD: "find P xs = Some x \<Longrightarrow> x \<in> set xs \<and> P x"
  by (induction xs) (auto split: if_splits)

lemma tableSeats_set: "set (tableSeats t) = {mkSeat t s | s. 1 \<le> s \<and> s \<le> 10}"
  by (auto simp add: tableSeats_def)

lemma tableSeats_distinct: "distinct (tableSeats t)"
  by (simp add: tableSeats_def distinct_map inj_on_def)

lemma tableIsFree_iff: "tableIsFree statuses t \<longleftrightarrow> (\<forall>s. 1 \<le> s \<and> s \<le> 10 \<longrightarrow> isFree statuses t s)"
  by (auto simp add: tableIsFree_def list_all_iff)

lemma chooseTable_sub:
  "distinct (chooseTable statuses) \<and> set (chooseTable statuses) \<subseteq> set (allFreeSeats statuses)"
proof (cases "find (tableIsFree statuses) [1..25]")
  case None then show ?thesis by (simp add: chooseTable_def)
next
  case (Some t)
  from find_SomeD [OF Some] have t: "1 \<le> t" "t \<le> 25" "tableIsFree statuses t" by auto
  have "set (tableSeats t) \<subseteq> set (allFreeSeats statuses)"
    using t by (auto simp add: tableSeats_set allFreeSeats_set tableIsFree_iff)
  with Some show ?thesis by (simp add: chooseTable_def tableSeats_distinct)
qed

lemma freeSeatsOfTable_set:
  "set (freeSeatsOfTable statuses t) = {s. 1 \<le> s \<and> s \<le> 10 \<and> isFree statuses t s}"
  by (auto simp add: freeSeatsOfTable_def)

lemma freeSeatsOfTable_sorted: "sorted (freeSeatsOfTable statuses t)"
  by (simp add: freeSeatsOfTable_def)

lemma nextSeat_neq: "nextSeat s \<noteq> s"
  by (simp add: nextSeat_def)

lemma duoInTable_SomeD:
  assumes "duoInTable statuses t = Some p"
  shows "\<exists>s. p = [mkSeat t s, mkSeat t (nextSeat s)]
            \<and> s \<in> set (freeSeatsOfTable statuses t) \<and> nextSeat s \<in> set (freeSeatsOfTable statuses t)"
proof (cases "find (\<lambda>s. nextSeat s \<in> set (freeSeatsOfTable statuses t)) (freeSeatsOfTable statuses t)")
  case None with assms show ?thesis by (simp add: duoInTable_def)
next
  case (Some s)
  from find_SomeD [OF Some] Some assms show ?thesis by (auto simp add: duoInTable_def)
qed

lemma chooseDuo_cases:
  "chooseDuo statuses ts = [] \<or> (\<exists>t\<in>set ts. duoInTable statuses t = Some (chooseDuo statuses ts))"
  by (induction ts) (auto split: option.splits)

lemma chooseDuo_sub:
  assumes "\<forall>t\<in>set ts. 1 \<le> t \<and> t \<le> 25"
  shows "distinct (chooseDuo statuses ts) \<and> set (chooseDuo statuses ts) \<subseteq> set (allFreeSeats statuses)"
proof -
  from chooseDuo_cases [of statuses ts] show ?thesis
  proof
    assume "chooseDuo statuses ts = []" then show ?thesis by simp
  next
    assume "\<exists>t\<in>set ts. duoInTable statuses t = Some (chooseDuo statuses ts)"
    then obtain t where t: "t \<in> set ts" "duoInTable statuses t = Some (chooseDuo statuses ts)" by blast
    from duoInTable_SomeD [OF t(2)] obtain s where
      s: "chooseDuo statuses ts = [mkSeat t s, mkSeat t (nextSeat s)]"
         "s \<in> set (freeSeatsOfTable statuses t)" "nextSeat s \<in> set (freeSeatsOfTable statuses t)"
      by blast
    from assms t(1) have "1 \<le> t" "t \<le> 25" by auto
    with s(2,3) have "mkSeat t s \<in> set (allFreeSeats statuses)" "mkSeat t (nextSeat s) \<in> set (allFreeSeats statuses)"
      by (auto simp add: freeSeatsOfTable_set allFreeSeats_set)
    with s(1) nextSeat_neq [of s] show ?thesis by auto
  qed
qed

lemma chooseSeats_sub:
  "distinct (chooseSeats rnd count statuses) \<and> set (chooseSeats rnd count statuses) \<subseteq> set (allFreeSeats statuses)"
proof -
  have d: "distinct (chooseDuo statuses [1..25]) \<and> set (chooseDuo statuses [1..25]) \<subseteq> set (allFreeSeats statuses)"
    by (rule chooseDuo_sub) simp
  have p: "distinct (pickRandom rnd 0 count (allFreeSeats statuses))
         \<and> set (pickRandom rnd 0 count (allFreeSeats statuses)) \<subseteq> set (allFreeSeats statuses)"
    by (rule pickRandom_distinct) (rule allFreeSeats_distinct)
  from d p chooseTable_sub [of statuses] show ?thesis
    by (simp add: chooseSeats_def Let_def)
qed

lemma chooseSeats_free:
  "set (chooseSeats rnd count statuses) \<inter> seatOf ` set statuses = {}"
  using chooseSeats_sub [of rnd count statuses] allFreeSeats_free [of statuses] by blast

lemma length_le_of_subset:
  "distinct xs \<Longrightarrow> set xs \<subseteq> set ys \<Longrightarrow> length xs \<le> length ys"
proof -
  assume a: "distinct xs" "set xs \<subseteq> set ys"
  have "length xs = card (set xs)" using a(1) by (simp add: distinct_card)
  also have "\<dots> \<le> card (set ys)" using a(2) by (simp add: card_mono)
  also have "\<dots> \<le> length ys" by (rule card_length)
  finally show ?thesis .
qed

lemma chooseSeats_length:
  "length (chooseSeats rnd count statuses) = min count (length (allFreeSeats statuses))"
proof -
  let ?free = "allFreeSeats statuses"
  have fb: "length (pickRandom rnd 0 count ?free) = min count (length ?free)"
    by (rule pickRandom_length)
  show ?thesis
  proof (cases "count = 10 \<and> chooseTable statuses \<noteq> []")
    case True
    then obtain t where "find (tableIsFree statuses) [1..25] = Some t" "chooseTable statuses = tableSeats t"
      by (auto simp add: chooseTable_def split: option.splits)
    then have l: "length (chooseTable statuses) = 10" by (simp add: tableSeats_def)
    from chooseTable_sub [of statuses] have "length (chooseTable statuses) \<le> length ?free"
      by (simp add: length_le_of_subset)
    with l True show ?thesis by (simp add: chooseSeats_def Let_def)
  next
    case nt: False
    show ?thesis
    proof (cases "count = 2 \<and> chooseDuo statuses [1..25] \<noteq> []")
      case True
      from chooseDuo_cases [of statuses "[1..25]"] True obtain t where
        "duoInTable statuses t = Some (chooseDuo statuses [1..25])" by blast
      from duoInTable_SomeD [OF this] have l: "length (chooseDuo statuses [1..25]) = 2" by auto
      have "distinct (chooseDuo statuses [1..25]) \<and> set (chooseDuo statuses [1..25]) \<subseteq> set ?free"
        by (rule chooseDuo_sub) simp
      then have "length (chooseDuo statuses [1..25]) \<le> length ?free"
        by (simp add: length_le_of_subset)
      with l True show ?thesis by (simp add: chooseSeats_def Let_def)
    next
      case False
      with nt fb show ?thesis by (auto simp add: chooseSeats_def Let_def)
    qed
  qed
qed

section \<open>Facts about booking\<close>

lemma bookSeats_keys: "seatOf ` set (bookSeats xs src statuses) = seatOf ` set statuses \<union> set xs"
proof -
  from bookSeats_append [of xs src statuses] obtain new where
    "bookSeats xs src statuses = statuses @ new" "seatOf ` set new = set xs - seatOf ` set statuses"
    by blast
  then show ?thesis by (auto simp add: image_Un)
qed

lemma bookSeats_present: "set xs \<subseteq> seatOf ` set statuses \<Longrightarrow> bookSeats xs src statuses = statuses"
  by (induction xs arbitrary: statuses) (simp_all add: occupied_seat_iff)

lemma bookSeats_oneEntryPerSeat:
  "oneEntryPerSeat statuses \<Longrightarrow> oneEntryPerSeat (bookSeats xs src statuses)"
proof -
  assume d: "oneEntryPerSeat statuses"
  from bookSeats_append [of xs src statuses] obtain new where
    n: "bookSeats xs src statuses = statuses @ new" "distinct (map seatOf new)"
       "seatOf ` set new = set xs - seatOf ` set statuses"
    by blast
  then show ?thesis using d by (auto simp add: oneEntryPerSeat_def)
qed

lemma one_entry_of_seat:
  "distinct (map seatOf statuses) \<Longrightarrow> x \<in> seatOf ` set statuses \<Longrightarrow>
   length (filter (\<lambda>e. tableId e = tableId x \<and> seatId e = seatId x) statuses) = 1"
proof (induction statuses)
  case Nil then show ?case by simp
next
  case (Cons e es)
  show ?case
  proof (cases "seatOf e = x")
    case True
    with Cons.prems have "x \<notin> seatOf ` set es" by auto
    then have "filter (\<lambda>e. tableId e = tableId x \<and> seatId e = seatId x) es = []"
      by (auto simp add: filter_empty_conv seatOf_eq_iff [symmetric])
    with True show ?thesis by (simp add: seatOf_eq_iff)
  next
    case False
    with Cons.prems have "x \<in> seatOf ` set es" "distinct (map seatOf es)" by auto
    with Cons.IH False show ?thesis by (simp add: seatOf_eq_iff)
  qed
qed

lemma nextSeat_range: "1 \<le> s \<Longrightarrow> s \<le> 10 \<Longrightarrow> 1 \<le> nextSeat s \<and> nextSeat s \<le> 10"
  by (simp add: nextSeat_def)

lemma duoInTable_None:
  assumes "\<not> hasAdjacentFreePair statuses t"
  shows "duoInTable statuses t = None"
proof -
  let ?fs = "freeSeatsOfTable statuses t"
  have "\<not> (\<exists>s\<in>set ?fs. nextSeat s \<in> set ?fs)"
    using assms by (auto simp add: hasAdjacentFreePair_def list_ex_iff freeSeatsOfTable_set)
  then have "find (\<lambda>s. nextSeat s \<in> set ?fs) ?fs = None"
    by (simp add: find_None_iff)
  then show ?thesis by (simp add: duoInTable_def)
qed

lemma duoInTable_first:
  assumes "1 \<le> s" "s \<le> 10" "isFree statuses t s" "isFree statuses t (nextSeat s)"
    and "\<forall>s'\<in>{1..<s}. \<not> (isFree statuses t s' \<and> isFree statuses t (nextSeat s'))"
  shows "duoInTable statuses t = Some [mkSeat t s, mkSeat t (nextSeat s)]"
proof -
  let ?fs = "freeSeatsOfTable statuses t"
  have "find (\<lambda>s. nextSeat s \<in> set ?fs) ?fs = Some s"
  proof (rule find_sorted_first)
    show "sorted ?fs" by (rule freeSeatsOfTable_sorted)
    show "s \<in> set ?fs" using assms by (simp add: freeSeatsOfTable_set)
    show "nextSeat s \<in> set ?fs" using assms nextSeat_range [of s] by (simp add: freeSeatsOfTable_set)
    show "\<forall>y\<in>set ?fs. y < s \<longrightarrow> nextSeat y \<notin> set ?fs"
      using assms(5) by (auto simp add: freeSeatsOfTable_set)
  qed
  then show ?thesis by (simp add: duoInTable_def)
qed

lemma chooseDuo_first:
  fixes t :: int
  shows "sorted ts \<Longrightarrow> t \<in> set ts \<Longrightarrow> duoInTable statuses t = Some p \<Longrightarrow>
    (\<forall>t'\<in>set ts. t' < t \<longrightarrow> duoInTable statuses t' = None) \<Longrightarrow> chooseDuo statuses ts = p"
proof (induction ts)
  case Nil then show ?case by simp
next
  case (Cons a ts)
  show ?case
  proof (cases "a = t")
    case True with Cons.prems show ?thesis by simp
  next
    case False
    with Cons.prems have "t \<in> set ts" "a < t" by auto
    with Cons.prems have "duoInTable statuses a = None" by simp
    moreover have "chooseDuo statuses ts = p" using Cons.IH Cons.prems \<open>t \<in> set ts\<close> by simp
    ultimately show ?thesis by simp
  qed
qed

lemma allFreeSeats_fullHouse: "allFreeSeats fullHouse = []"
proof -
  have "mkSeat t s \<in> seatOf ` set fullHouse" if "1 \<le> t" "t \<le> 25" "1 \<le> s" "s \<le> 10" for t s
  proof -
    have "mkStatus t s User \<in> set fullHouse" using that
      by (auto simp add: fullHouse_def intro!: bexI [of _ t] image_eqI [of _ _ s])
    then have "seatOf (mkStatus t s User) \<in> seatOf ` set fullHouse" by (rule imageI)
    then show ?thesis by simp
  qed
  then have "set (allFreeSeats fullHouse) = {}"
    by (auto simp add: allFreeSeats_set isFree_iff)
  then show ?thesis by simp
qed

section \<open>The seat assignment books what it chooses\<close>

text \<open>
  Claim C2 says that \<open>assignSeats\<close> leaves the stored seat statuses as they were and that
  booking is left to the caller. The code ends with \<open>this.bookSeats(chosen, 'user')\<close>:
  on the empty store, \<open>assignSeats(1)\<close> with the draw 0 stores a user entry for seat 1
  of table 1.
\<close>

theorem assignSeats_mutates_store:
  "snd (assignSeats (\<lambda>i. 0) 1 []) = [mkStatus 1 1 User] \<and> snd (assignSeats (\<lambda>i. 0) 1 []) \<noteq> []"
  by code_simp

text \<open>
  Claim C2 as amended: \<open>assignSeats\<close> keeps every stored entry and appends one user entry
  for each seat it returns, in the order returned; the stored statuses are the same
  after the call exactly when no seat is returned.
\<close>

theorem assignSeats_books_chosen:
  "snd (assignSeats rnd count statuses) = statuses @ map userStatus (fst (assignSeats rnd count statuses))
   \<and> (snd (assignSeats rnd count statuses) = statuses \<longleftrightarrow> fst (assignSeats rnd count statuses) = [])"
proof -
  let ?chosen = "chooseSeats rnd count statuses"
  have "distinct ?chosen" using chooseSeats_sub [of rnd count statuses] by simp
  from bookSeats_free_distinct [OF this chooseSeats_free, of User]
  have "bookSeats ?chosen User statuses = statuses @ map userStatus ?chosen"
    by (simp add: userStatus_def [abs_def])
  then show ?thesis by (simp add: assignSeats_def Let_def)
qed

section \<open>Full table\<close>

lemma tableIsFree_no_entry:
  assumes "\<forall>e\<in>set statuses. 1 \<le> seatId e \<and> seatId e \<le> 10"
  shows "tableIsFree statuses t \<longleftrightarrow> (\<forall>e\<in>set statuses. tableId e \<noteq> t)"
proof
  assume f: "tableIsFree statuses t"
  show "\<forall>e\<in>set statuses. tableId e \<noteq> t"
  proof
    fix e assume e: "e \<in> set statuses"
    with assms have "1 \<le> seatId e" "seatId e \<le> 10" by auto
    with f have "isFree statuses t (seatId e)" by (simp add: tableIsFree_iff)
    then have "mkSeat t (seatId e) \<notin> seatOf ` set statuses" by (simp add: isFree_iff)
    with e have "seatOf e \<noteq> mkSeat t (seatId e)" by (metis imageI)
    then show "tableId e \<noteq> t" by (auto simp add: seatOf_def)
  qed
next
  assume n: "\<forall>e\<in>set statuses. tableId e \<noteq> t"
  then have "mkSeat t s \<notin> seatOf ` set statuses" for s by (auto simp add: seatOf_def)
  then show "tableIsFree statuses t" by (simp add: tableIsFree_iff isFree_iff)
qed

text \<open>
  Claim C4: for \<open>count = 10\<close>, \<open>assignSeats\<close> returns the ten seats, in the order 1 to
  10, of the first table (scanning 1 to 25) none of whose ten seats has a status entry;
  in particular on the empty snapshot it returns the ten seats of table 1. When every
  entry of the snapshot is about a seat 1 to 10, a table none of whose ten seats has an
  entry is a table without any entry.
\<close>

theorem assignSeats_full_table:
  "(1 \<le> t \<and> t \<le> 25 \<and> tableIsFree statuses t \<and> (\<forall>t'\<in>{1..<t}. \<not> tableIsFree statuses t')
      \<longrightarrow> fst (assignSeats rnd 10 statuses) = map (mkSeat t) [1..10])
   \<and> fst (assignSeats rnd 10 []) =
       [mkSeat 1 1, mkSeat 1 2, mkSeat 1 3, mkSeat 1 4, mkSeat 1 5,
        mkSeat 1 6, mkSeat 1 7, mkSeat 1 8, mkSeat 1 9, mkSeat 1 10]
   \<and> ((\<forall>e\<in>set statuses. 1 \<le> seatId e \<and> seatId e \<le> 10)
        \<longrightarrow> (tableIsFree statuses t \<longleftrightarrow> (\<forall>e\<in>set statuses. tableId e \<noteq> t)))"
proof -
  have g: "fst (assignSeats rnd 10 sts) = map (mkSeat t) [1..10]"
    if h: "1 \<le> t" "t \<le> 25" "tableIsFree sts t" "\<forall>t'\<in>{1..<t}. \<not> tableIsFree sts t'"
    for sts t
  proof -
    have "find (tableIsFree sts) [1..25] = Some t"
      by (rule find_sorted_first) (use h in auto)
    then have "chooseTable sts = tableSeats t" by (simp add: chooseTable_def)
    then show ?thesis by (simp add: assignSeats_def chooseSeats_def Let_def tableSeats_def)
  qed
  have e: "tableIsFree [] 1" by (simp add: tableIsFree_iff isFree_def occupied_def)
  have "fst (assignSeats rnd 10 []) = map (mkSeat 1) [1..10]"
    by (rule g) (use e in auto)
  then have "fst (assignSeats rnd 10 []) =
       [mkSeat 1 1, mkSeat 1 2, mkSeat 1 3, mkSeat 1 4, mkSeat 1 5,
        mkSeat 1 6, mkSeat 1 7, mkSeat 1 8, mkSeat 1 9, mkSeat 1 10]"
    by (simp add: upto_rec1)
  with g tableIsFree_no_entry show ?thesis by blast
qed

theorem assignSeats_full_table_witness:
  "\<not> tableIsFree table1Taken 1 \<and> tableIsFree table1Taken 2
   \<and> fst (assignSeats (\<lambda>i. 0) 10 table1Taken) = map (mkSeat 2) [1..10]"
proof -
  have a: "tableIsFree table1Taken 2" by code_simp
  have n: "\<not> tableIsFree table1Taken 1" by code_simp
  have b: "\<forall>t'\<in>{1..<2}. \<not> tableIsFree table1Taken t'" by code_simp
  have "fst (assignSeats (\<lambda>i. 0) 10 table1Taken) = map (mkSeat 2) [1..10]"
    by (rule mp [OF conjunct1 [OF assignSeats_full_table]]) (simp add: a b)
  with a n show ?thesis by (intro conjI)
qed

section \<open>Duo\<close>

text \<open>
  Claim C5: for \<open>count = 2\<close>, with \<open>t\<close> the first table (scanning 1 to 25) that has two
  free seats next to each other and \<open>s\<close> its first free seat (scanning 1 to 10) whose
  successor around the table is free, \<open>assignSeats\<close> returns the seat \<open>s\<close> and its
  successor at table \<open>t\<close>. In particular, when no earlier table has such a pair and
  table 3 has exactly the seats 9 and 10 free, it returns seats 9 and 10 of table 3; the
  successor of seat 10 is seat 1, so that a table whose only free seats are 1 and 10
  gives the pair 10, 1.
\<close>

theorem assignSeats_duo:
  "(1 \<le> t \<and> t \<le> 25 \<and> (\<forall>t'\<in>{1..<t}. \<not> hasAdjacentFreePair statuses t')
      \<and> 1 \<le> s \<and> s \<le> 10 \<and> isFree statuses t s \<and> isFree statuses t (nextSeat s)
      \<and> (\<forall>s'\<in>{1..<s}. \<not> (isFree statuses t s' \<and> isFree statuses t (nextSeat s')))
      \<longrightarrow> fst (assignSeats rnd 2 statuses) = [mkSeat t s, mkSeat t (nextSeat s)])
   \<and> ((\<forall>t'\<in>{1..<3}. \<not> hasAdjacentFreePair statuses t')
        \<and> (\<forall>s\<in>{1..10}. isFree statuses 3 s \<longleftrightarrow> s = 9 \<or> s = 10)
      \<longrightarrow> fst (assignSeats rnd 2 statuses) = [mkSeat 3 9, mkSeat 3 10])
   \<and> nextSeat 10 = 1
   \<and> (1 \<le> t \<and> t \<le> 25 \<and> (\<forall>t'\<in>{1..<t}. \<not> hasAdjacentFreePair statuses t')
        \<and> (\<forall>s\<in>{1..10}. isFree statuses t s \<longleftrightarrow> s = 1 \<or> s = 10)
      \<longrightarrow> fst (assignSeats rnd 2 statuses) = [mkSeat t 10, mkSeat t 1])"
proof -
  have g: "fst (assignSeats rnd 2 sts) = [mkSeat t s, mkSeat t (nextSeat s)]"
    if h: "1 \<le> t" "t \<le> 25" "\<forall>t'\<in>{1..<t}. \<not> hasAdjacentFreePair sts t'"
       "1 \<le> s" "s \<le> 10" "isFree sts t s" "isFree sts t (nextSeat s)"
       "\<forall>s'\<in>{1..<s}. \<not> (isFree sts t s' \<and> isFree sts t (nextSeat s'))"
    for sts t s
  proof -
    have d: "duoInTable sts t = Some [mkSeat t s, mkSeat t (nextSeat s)]"
      using h(4-8) by (rule duoInTable_first)
    have "chooseDuo sts [1..25] = [mkSeat t s, mkSeat t (nextSeat s)]"
    proof (rule chooseDuo_first [OF _ _ d])
      show "sorted [1..25]" by simp
      show "t \<in> set [1..25]" using h by simp
      show "\<forall>t'\<in>set [1..25]. t' < t \<longrightarrow> duoInTable sts t' = None"
        using h(3) by (auto intro: duoInTable_None)
    qed
    then show ?thesis by (simp add: assignSeats_def chooseSeats_def Let_def)
  qed
  have p3: "fst (assignSeats rnd 2 sts) = [mkSeat 3 9, mkSeat 3 10]"
    if h: "\<forall>t'\<in>{1..<3}. \<not> hasAdjacentFreePair sts t'"
          "\<forall>s\<in>{1..10}. isFree sts 3 s \<longleftrightarrow> s = 9 \<or> s = 10"
    for sts
  proof -
    have "fst (assignSeats rnd 2 sts) = [mkSeat 3 9, mkSeat 3 (nextSeat 9)]"
    proof (rule g)
      show "\<forall>t'\<in>{1..<3}. \<not> hasAdjacentFreePair sts t'" by (rule h(1))
      show "isFree sts 3 9" using h(2) by simp
      show "isFree sts 3 (nextSeat 9)" using h(2) by (simp add: nextSeat_def)
      show "\<forall>s'\<in>{1..<9}. \<not> (isFree sts 3 s' \<and> isFree sts 3 (nextSeat s'))"
        using h(2) by auto
    qed simp_all
    then show ?thesis by (simp add: nextSeat_def)
  qed
  have w: "fst (assignSeats rnd 2 sts) = [mkSeat t 10, mkSeat t 1]"
    if h: "1 \<le> t" "t \<le> 25" "\<forall>t'\<in>{1..<t}. \<not> hasAdjacentFreePair sts t'"
          "\<forall>s\<in>{1..10}. isFree sts t s \<longleftrightarrow> s = 1 \<or> s = 10"
    for sts t
  proof -
    have "fst (assignSeats rnd 2 sts) = [mkSeat t 10, mkSeat t (nextSeat 10)]"
    proof (rule g [OF h(1,2,3)])
      show "isFree sts t 10" using h(4) by simp
      show "isFree sts t (nextSeat 10)" using h(4) by (simp add: nextSeat_def)
      show "\<forall>s'\<in>{1..<10}. \<not> (isFree sts t s' \<and> isFree sts t (nextSeat s'))"
        using h(4) by (auto simp add: nextSeat_def)
    qed simp_all
    then show ?thesis by (simp add: nextSeat_def)
  qed
  have n: "nextSeat 10 = 1" by (simp add: nextSeat_def)
  from g p3 w n show ?thesis by blast
qed

theorem assignSeats_duo_witness:
  "\<not> hasAdjacentFreePair table3Tail 1 \<and> \<not> hasAdjacentFreePair table3Tail 2
   \<and> filter (isFree table3Tail 3) [1..10] = [9, 10]
   \<and> fst (assignSeats (\<lambda>i. 0) 2 table3Tail) = [mkSeat 3 9, mkSeat 3 10]
   \<and> filter (isFree table1Ends 1) [1..10] = [1, 10]
   \<and> fst (assignSeats (\<lambda>i. 0) 2 table1Ends) = [mkSeat 1 10, mkSeat 1 1]"
proof -
  have a1: "\<not> hasAdjacentFreePair table3Tail 1" by code_simp
  have a2: "\<not> hasAdjacentFreePair table3Tail 2" by code_simp
  have a: "\<forall>t'\<in>{1..<3}. \<not> hasAdjacentFreePair table3Tail t'" by code_simp
  have f3: "filter (isFree table3Tail 3) [1..10] = [9, 10]" by code_simp
  have b: "\<forall>s\<in>{1..10}. isFree table3Tail 3 s \<longleftrightarrow> s = 9 \<or> s = 10" by code_simp
  have c: "\<forall>t'\<in>{1..<1}. \<not> hasAdjacentFreePair table1Ends t'" by simp
  have f1: "filter (isFree table1Ends 1) [1..10] = [1, 10]" by code_simp
  have d: "\<forall>s\<in>{1..10}. isFree table1Ends 1 s \<longleftrightarrow> s = 1 \<or> s = 10" by code_simp
  have 1: "fst (assignSeats (\<lambda>i. 0) 2 table3Tail) = [mkSeat 3 9, mkSeat 3 10]"
    by (rule mp [OF conjunct1 [OF conjunct2 [OF assignSeats_duo]]]) (intro conjI a b)
  have 2: "fst (assignSeats (\<lambda>i. 0) 2 table1Ends) = [mkSeat 1 10, mkSeat 1 1]"
    by (rule mp [OF conjunct2 [OF conjunct2 [OF conjunct2 [OF assignSeats_duo]]]])
       (intro conjI c d; simp)
  from a1 a2 f3 1 f1 2 show ?thesis by (intro conjI)
qed

section \<open>Insufficient inventory\<close>

text \<open>
  Claim C6: \<open>assignSeats\<close> has no failing branch. It returns \<open>count\<close> seats when that many
  are free and all the free seats otherwise: when fewer than \<open>count\<close> seats are free,
  the seats returned are exactly the free seats, each once; with no free seat,
  \<open>assignSeats(1)\<close> returns the empty list and stores nothing.
\<close>

theorem assignSeats_insufficient:
  "length (fst (assignSeats rnd count statuses)) = min count (length (allFreeSeats statuses))
   \<and> (length (allFreeSeats statuses) < count \<longrightarrow>
        set (fst (assignSeats rnd count statuses)) = set (allFreeSeats statuses)
        \<and> distinct (fst (assignSeats rnd count statuses)))
   \<and> (allFreeSeats statuses = [] \<longrightarrow> assignSeats rnd 1 statuses = ([], statuses))"
proof -
  let ?chosen = "chooseSeats rnd count statuses"
  let ?free = "allFreeSeats statuses"
  have 1: "length ?chosen = min count (length ?free)" by (rule chooseSeats_length)
  have s: "distinct ?chosen" "set ?chosen \<subseteq> set ?free"
    using chooseSeats_sub [of rnd count statuses] by simp_all
  have 2: "set ?chosen = set ?free" if lt: "length ?free < count"
  proof -
    from 1 lt have "length ?chosen = length ?free" by simp
    then have "card (set ?chosen) = card (set ?free)"
      using s(1) allFreeSeats_distinct [of statuses] by (simp add: distinct_card)
    with s(2) show ?thesis by (simp add: card_subset_eq)
  qed
  have 3: "assignSeats rnd 1 statuses = ([], statuses)" if e: "?free = []"
  proof -
    have "length (chooseSeats rnd 1 statuses) = min 1 (length ?free)" by (rule chooseSeats_length)
    with e have "chooseSeats rnd 1 statuses = []" by simp
    then show ?thesis by (simp add: assignSeats_def)
  qed
  from 1 2 3 s(1) show ?thesis by (simp add: assignSeats_def Let_def)
qed

theorem assignSeats_insufficient_witness:
  "length (allFreeSeats table1Taken) < 300
   \<and> set (fst (assignSeats (\<lambda>i. 0) 300 table1Taken)) = set (allFreeSeats table1Taken)
   \<and> distinct (fst (assignSeats (\<lambda>i. 0) 300 table1Taken))
   \<and> allFreeSeats fullHouse = []
   \<and> assignSeats (\<lambda>i. 0) 1 fullHouse = ([], fullHouse)"
proof -
  have a: "length (allFreeSeats table1Taken) < 300" by code_simp
  have b: "allFreeSeats fullHouse = []" by (rule allFreeSeats_fullHouse)
  from a assignSeats_insufficient [of "\<lambda>i. 0" 300 table1Taken]
  have 1: "set (fst (assignSeats (\<lambda>i. 0) 300 table1Taken)) = set (allFreeSeats table1Taken)
           \<and> distinct (fst (assignSeats (\<lambda>i. 0) 300 table1Taken))" by blast
  from b assignSeats_insufficient [of "\<lambda>i. 0" 1 fullHouse]
  have 2: "assignSeats (\<lambda>i. 0) 1 fullHouse = ([], fullHouse)" by blast
  from a b 1 2 show ?thesis by blast
qed

section \<open>Booking is idempotent and never overwrites\<close>

text \<open>
  Claim C7: \<open>bookSeats\<close> keeps the stored entries as they are and appends, for each seat
  of its argument that had no entry, exactly one entry, with the given source; booking
  the same seats again with the same source changes nothing, and after booking a seat
  twice the list holds exactly one entry for it (given that the list had at most one
  entry per seat before).
\<close>

theorem bookSeats_idempotent:
  "(\<exists>new. bookSeats xs src statuses = statuses @ new
       \<and> (\<forall>e\<in>set new. source e = src)
       \<and> distinct (map seatOf new)
       \<and> seatOf ` set new = set xs - seatOf ` set statuses)
   \<and> bookSeats xs src (bookSeats xs src statuses) = bookSeats xs src statuses
   \<and> (oneEntryPerSeat statuses \<longrightarrow>
        length (filter (\<lambda>e. tableId e = tableId x \<and> seatId e = seatId x)
                  (bookSeats [x] src (bookSeats [x] src statuses))) = 1)"
proof -
  have 1: "\<exists>new. bookSeats xs src statuses = statuses @ new
       \<and> (\<forall>e\<in>set new. source e = src)
       \<and> distinct (map seatOf new)
       \<and> seatOf ` set new = set xs - seatOf ` set statuses"
    by (rule bookSeats_append)
  have 2: "bookSeats xs src (bookSeats xs src statuses) = bookSeats xs src statuses"
    by (rule bookSeats_present) (simp only: bookSeats_keys, simp)
  have 3: "length (filter (\<lambda>e. tableId e = tableId x \<and> seatId e = seatId x)
                  (bookSeats [x] src (bookSeats [x] src statuses))) = 1"
    if d: "oneEntryPerSeat statuses"
  proof -
    let ?b = "bookSeats [x] src statuses"
    have twice: "bookSeats [x] src ?b = ?b"
      by (rule bookSeats_present) (simp only: bookSeats_keys, simp)
    have dist: "distinct (map seatOf ?b)"
      using bookSeats_oneEntryPerSeat [OF d, of "[x]" src] unfolding oneEntryPerSeat_def .
    have mem: "x \<in> seatOf ` set ?b" by (simp only: bookSeats_keys, simp)
    have "length (filter (\<lambda>e. tableId e = tableId x \<and> seatId e = seatId x) ?b) = 1"
      using dist mem by (rule one_entry_of_seat)
    then show ?thesis by (simp only: twice)
  qed
  from 1 2 3 show ?thesis by blast
qed

theorem bookSeats_idempotent_witness:
  "oneEntryPerSeat table1Taken
   \<and> bookSeats [mkSeat 1 4, mkSeat 1 5] User table1Taken
       = [mkStatus 1 4 Admin, mkStatus 1 5 User]
   \<and> bookSeats [mkSeat 1 4, mkSeat 1 5] User
         (bookSeats [mkSeat 1 4, mkSeat 1 5] User table1Taken)
       = bookSeats [mkSeat 1 4, mkSeat 1 5] User table1Taken
   \<and> length (filter (\<lambda>e. tableId e = 1 \<and> seatId e = 5)
        (bookSeats [mkSeat 1 5] User (bookSeats [mkSeat 1 5] User table1Taken))) = 1"
proof -
  have a: "oneEntryPerSeat table1Taken" by code_simp
  have b: "bookSeats [mkSeat 1 4, mkSeat 1 5] User table1Taken
       = [mkStatus 1 4 Admin, mkStatus 1 5 User]" by code_simp
  from a bookSeats_idempotent [of "[mkSeat 1 4, mkSeat 1 5]" User table1Taken "mkSeat 1 5"]
  have c: "bookSeats [mkSeat 1 4, mkSeat 1 5] User
         (bookSeats [mkSeat 1 4, mkSeat 1 5] User table1Taken)
       = bookSeats [mkSeat 1 4, mkSeat 1 5] User table1Taken" by blast
  from a bookSeats_idempotent [of "[mkSeat 1 5]" User table1Taken "mkSeat 1 5"]
  have "length (filter (\<lambda>e. tableId e = tableId (mkSeat 1 5) \<and> seatId e = seatId (mkSeat 1 5))
        (bookSeats [mkSeat 1 5] User (bookSeats [mkSeat 1 5] User table1Taken))) = 1"
    by blast
  then have d: "length (filter (\<lambda>e. tableId e = 1 \<and> seatId e = 5)
        (bookSeats [mkSeat 1 5] User (bookSeats [mkSeat 1 5] User table1Taken))) = 1"
    by (simp only: mkSeat_sel)
  from a b c d show ?thesis by blast
qed

section \<open>No direct step from blocked to booked\<close>

lemma find_seat_None: "find (\<lambda>e. tableId e = t \<and> seatId e = s) statuses = None \<longleftrightarrow> mkSeat t s \<notin> seatOf ` set statuses"
  by (auto simp add: find_None_iff seatOf_def image_iff)

lemma find_seat_Some:
  "distinct (map seatOf statuses) \<Longrightarrow>
   find (\<lambda>e. tableId e = t \<and> seatId e = s) statuses = Some e \<longleftrightarrow> e \<in> set statuses \<and> seatOf e = mkSeat t s"
proof (induction statuses)
  case Nil then show ?case by simp
next
  case (Cons a as)
  show ?case
  proof (cases "tableId a = t \<and> seatId a = s")
    case True
    then have k: "seatOf a = mkSeat t s" by (simp add: seatOf_def)
    with Cons.prems have "mkSeat t s \<notin> seatOf ` set as" by simp
    then have "\<forall>e\<in>set as. seatOf e \<noteq> mkSeat t s" by (auto simp add: image_iff)
    with True k show ?thesis by auto
  next
    case False
    then have "seatOf a \<noteq> mkSeat t s" by (auto simp add: seatOf_def)
    with False Cons show ?thesis by auto
  qed
qed

lemma stateOfSeat_Admin:
  assumes "oneEntryPerSeat statuses"
  shows "stateOfSeat statuses t s = AdminBlocked \<longleftrightarrow> mkStatus t s Admin \<in> set statuses"
proof -
  from assms have d: "distinct (map seatOf statuses)" by (simp add: oneEntryPerSeat_def)
  show ?thesis
  proof (cases "find (\<lambda>e. tableId e = t \<and> seatId e = s) statuses")
    case None
    then have "mkSeat t s \<notin> seatOf ` set statuses" by (simp add: find_seat_None)
    then have "mkStatus t s Admin \<notin> set statuses" by (metis imageI seatOf_mkStatus)
    with None show ?thesis by (simp add: stateOfSeat_def)
  next
    case (Some e)
    with find_seat_Some [OF d] have e: "e \<in> set statuses" "seatOf e = mkSeat t s" by auto
    have eq: "e = mkStatus t s (source e)"
      using e(2) by (cases e) (simp add: seatOf_def mkSeat_def mkStatus_def)
    show ?thesis
    proof (cases "source e = Admin")
      case True
      with eq e(1) Some show ?thesis by (simp add: stateOfSeat_def)
    next
      case False
      have "mkStatus t s Admin \<notin> set statuses"
      proof
        assume m: "mkStatus t s Admin \<in> set statuses"
        have "find (\<lambda>e. tableId e = t \<and> seatId e = s) statuses = Some (mkStatus t s Admin)"
          using m by (simp add: find_seat_Some [OF d])
        with Some have "e = mkStatus t s Admin" by simp
        then have "source e = Admin" by (metis mkStatus_sel(3))
        with False show False by simp
      qed
      with False Some show ?thesis by (simp add: stateOfSeat_def)
    qed
  qed
qed

lemma stateOfSeat_User:
  assumes "oneEntryPerSeat statuses"
  shows "stateOfSeat statuses t s = UserBooked \<longleftrightarrow> mkStatus t s User \<in> set statuses"
proof -
  from assms have d: "distinct (map seatOf statuses)" by (simp add: oneEntryPerSeat_def)
  show ?thesis
  proof (cases "find (\<lambda>e. tableId e = t \<and> seatId e = s) statuses")
    case None
    then have "mkSeat t s \<notin> seatOf ` set statuses" by (simp add: find_seat_None)
    then have "mkStatus t s User \<notin> set statuses" by (metis imageI seatOf_mkStatus)
    with None show ?thesis by (simp add: stateOfSeat_def)
  next
    case (Some e)
    with find_seat_Some [OF d] have e: "e \<in> set statuses" "seatOf e = mkSeat t s" by auto
    have eq: "e = mkStatus t s (source e)"
      using e(2) by (cases e) (simp add: seatOf_def mkSeat_def mkStatus_def)
    show ?thesis
    proof (cases "source e = Admin")
      case False
      then have "source e = User" by (cases "source e") simp_all
      with eq e(1) Some show ?thesis by (simp add: stateOfSeat_def)
    next
      case True
      have "mkStatus t s User \<notin> set statuses"
      proof
        assume m: "mkStatus t s User \<in> set statuses"
        have "find (\<lambda>e. tableId e = t \<and> seatId e = s) statuses = Some (mkStatus t s User)"
          using m by (simp add: find_seat_Some [OF d])
        with Some have "e = mkStatus t s User" by simp
        then have "source e = User" by (metis mkStatus_sel(3))
        with True show False by simp
      qed
      with True Some show ?thesis by (simp add: stateOfSeat_def)
    qed
  qed
qed

lemma unbookSeats_oneEntryPerSeat:
  "oneEntryPerSeat statuses \<Longrightarrow> oneEntryPerSeat (unbookSeats xs statuses)"
  by (simp add: oneEntryPerSeat_def unbookSeats_eq distinct_map_filter)

lemma findIndex_Some:
  "findIndex P xs = Some i \<Longrightarrow> i < length xs \<and> P (xs ! i) \<and> (\<forall>j<i. \<not> P (xs ! j))"
proof (induction xs arbitrary: i)
  case Nil then show ?case by simp
next
  case (Cons x xs)
  show ?case
  proof (cases "P x")
    case True with Cons.prems show ?thesis by simp
  next
    case False
    with Cons.prems obtain k where k: "findIndex P xs = Some k" "i = Suc k" by auto
    from Cons.IH [OF k(1)] False k(2) show ?thesis by (auto simp add: less_Suc_eq_0_disj)
  qed
qed

lemma findIndex_None: "findIndex P xs = None \<longleftrightarrow> (\<forall>x\<in>set xs. \<not> P x)"
  by (induction xs) auto

lemma splice1_sub: "set (splice1 i xs) \<subseteq> set xs"
  by (auto simp add: splice1_def dest: in_set_takeD in_set_dropD)

lemma splice1_map: "map f (splice1 i xs) = splice1 i (map f xs)"
  by (simp add: splice1_def take_map drop_map)

lemma toggleSeat_oneEntryPerSeat:
  assumes "oneEntryPerSeat statuses"
  shows "oneEntryPerSeat (toggleSeat t s statuses)"
proof (cases "findIndex (\<lambda>e. tableId e = t \<and> seatId e = s) statuses")
  case None
  then have "mkSeat t s \<notin> seatOf ` set statuses"
    by (auto simp add: findIndex_None seatOf_def)
  with None assms show ?thesis by (simp add: toggleSeat_def oneEntryPerSeat_def)
next
  case (Some i)
  from findIndex_Some [OF Some] have "i < length (map seatOf statuses)" by simp
  from splice1_distinct [OF this] assms have "distinct (splice1 i (map seatOf statuses))"
    by (simp add: oneEntryPerSeat_def)
  with Some show ?thesis by (simp add: toggleSeat_def oneEntryPerSeat_def splice1_map)
qed

lemma toggleSeat_same:
  assumes "oneEntryPerSeat statuses" "mkSeat t s \<in> seatOf ` set statuses"
  shows "mkSeat t s \<notin> seatOf ` set (toggleSeat t s statuses)"
proof -
  from assms(2) obtain i where i: "findIndex (\<lambda>e. tableId e = t \<and> seatId e = s) statuses = Some i"
    by (cases "findIndex (\<lambda>e. tableId e = t \<and> seatId e = s) statuses")
       (auto simp add: findIndex_None seatOf_def)
  from findIndex_Some [OF i] have lt: "i < length (map seatOf statuses)"
    and k: "map seatOf statuses ! i = mkSeat t s" by (simp_all add: seatOf_def)
  from splice1_distinct [OF lt] assms(1) have "map seatOf statuses ! i \<notin> set (splice1 i (map seatOf statuses))"
    by (simp add: oneEntryPerSeat_def)
  with k have "mkSeat t s \<notin> set (map seatOf (splice1 i statuses))" by (simp add: splice1_map)
  with i show ?thesis by (simp add: toggleSeat_def)
qed

lemma toggleSeat_other:
  assumes "e \<in> set (toggleSeat t s statuses)" "seatOf e \<noteq> mkSeat t s"
  shows "e \<in> set statuses"
proof (cases "findIndex (\<lambda>e. tableId e = t \<and> seatId e = s) statuses")
  case None
  with assms show ?thesis by (auto simp add: toggleSeat_def)
next
  case (Some i)
  with assms splice1_sub [of i statuses] show ?thesis by (auto simp add: toggleSeat_def)
qed

lemma applyOp_oneEntryPerSeat:
  "oneEntryPerSeat statuses \<Longrightarrow> oneEntryPerSeat (applyOp op statuses)"
  by (cases op)
     (simp_all add: bookSeats_oneEntryPerSeat unbookSeats_oneEntryPerSeat
        toggleSeat_oneEntryPerSeat assignSeats_def Let_def)

lemma runOps_oneEntryPerSeat: "oneEntryPerSeat (runOps ops)"
proof -
  have "oneEntryPerSeat statuses \<Longrightarrow> oneEntryPerSeat (foldl (\<lambda>statuses op. applyOp op statuses) statuses ops)"
    for statuses
    by (induction ops arbitrary: statuses) (simp_all add: applyOp_oneEntryPerSeat)
  then show ?thesis by (simp add: runOps_def oneEntryPerSeat_def)
qed

lemma bookSeats_no_takeover:
  assumes "oneEntryPerSeat statuses" "mkStatus t s Admin \<in> set statuses"
  shows "mkStatus t s User \<notin> set (bookSeats xs src statuses)"
proof
  assume u: "mkStatus t s User \<in> set (bookSeats xs src statuses)"
  from bookSeats_oneEntryPerSeat [OF assms(1), of xs src]
  have d: "distinct (map seatOf (bookSeats xs src statuses))" by (simp add: oneEntryPerSeat_def)
  from bookSeats_append [of xs src statuses] obtain new where
    "bookSeats xs src statuses = statuses @ new" by blast
  with assms(2) have a: "mkStatus t s Admin \<in> set (bookSeats xs src statuses)" by simp
  from d a u have "mkStatus t s Admin = mkStatus t s User"
    by (metis (no_types, lifting) distinct_map inj_onD seatOf_mkStatus)
  then show False by (simp add: mkStatus_def)
qed

lemma no_takeover_step:
  assumes one: "oneEntryPerSeat statuses" and adm: "stateOfSeat statuses t s = AdminBlocked"
  shows "stateOfSeat (applyOp op statuses) t s \<noteq> UserBooked"
proof -
  from adm one have a: "mkStatus t s Admin \<in> set statuses" by (simp add: stateOfSeat_Admin)
  then have k: "mkSeat t s \<in> seatOf ` set statuses" by (metis imageI seatOf_mkStatus)
  have nu: "mkStatus t s User \<notin> set statuses"
  proof
    assume "mkStatus t s User \<in> set statuses"
    with a one have "mkStatus t s Admin = mkStatus t s User"
      unfolding oneEntryPerSeat_def by (metis (no_types, lifting) distinct_map inj_onD seatOf_mkStatus)
    then show False by (simp add: mkStatus_def)
  qed
  have one': "oneEntryPerSeat (applyOp op statuses)" using one by (rule applyOp_oneEntryPerSeat)
  have "mkStatus t s User \<notin> set (applyOp op statuses)"
  proof (cases op)
    case (BookSeats xs src)
    with bookSeats_no_takeover [OF one a] show ?thesis by simp
  next
    case (UnbookSeats xs)
    with nu show ?thesis by (simp add: unbookSeats_eq)
  next
    case (ToggleSeat t' s')
    show ?thesis
    proof (cases "mkSeat t' s' = mkSeat t s")
      case True
      then have "t' = t" "s' = s" by simp_all
      with toggleSeat_same [OF one k] have "mkSeat t s \<notin> seatOf ` set (toggleSeat t' s' statuses)" by simp
      then have "mkStatus t s User \<notin> set (toggleSeat t' s' statuses)" by (metis imageI seatOf_mkStatus)
      with ToggleSeat show ?thesis by simp
    next
      case False
      then have "seatOf (mkStatus t s User) \<noteq> mkSeat t' s'" by auto
      with toggleSeat_other [of "mkStatus t s User" t' s' statuses] nu
      have "mkStatus t s User \<notin> set (toggleSeat t' s' statuses)" by blast
      with ToggleSeat show ?thesis by simp
    qed
  next
    case (AssignSeats rnd count)
    with bookSeats_no_takeover [OF one a] show ?thesis by (simp add: assignSeats_def Let_def)
  qed
  with one' show ?thesis by (simp add: stateOfSeat_User)
qed

text \<open>
  Claim C9: in every seat-status list reached from the empty list by \<open>bookSeats\<close>,
  \<open>unbookSeats\<close>, \<open>toggleSeat\<close> and \<open>assignSeats\<close>, a seat that is blocked by the admin
  is not booked by a user after any single further operation: it stays blocked or
  becomes free.
\<close>

theorem no_direct_admin_to_user:
  "stateOfSeat (runOps ops) t s = AdminBlocked \<longrightarrow>
     stateOfSeat (applyOp op (runOps ops)) t s \<noteq> UserBooked"
  using no_takeover_step [OF runOps_oneEntryPerSeat] by blast

theorem no_direct_admin_to_user_witness:
  "stateOfSeat (runOps [ToggleSeat 1 4]) 1 4 = AdminBlocked
   \<and> stateOfSeat (applyOp (BookSeats [mkSeat 1 4] User) (runOps [ToggleSeat 1 4])) 1 4 = AdminBlocked
   \<and> stateOfSeat (applyOp (ToggleSeat 1 4) (runOps [ToggleSeat 1 4])) 1 4 = Free
   \<and> stateOfSeat (applyOp (BookSeats [mkSeat 1 4] User) (runOps [ToggleSeat 1 4])) 1 4 \<noteq> UserBooked"
proof -
  have a: "stateOfSeat (runOps [ToggleSeat 1 4]) 1 4 = AdminBlocked" by code_simp
  have b: "stateOfSeat (applyOp (BookSeats [mkSeat 1 4] User) (runOps [ToggleSeat 1 4])) 1 4 = AdminBlocked"
    by code_simp
  have c: "stateOfSeat (applyOp (ToggleSeat 1 4) (runOps [ToggleSeat 1 4])) 1 4 = Free" by code_simp
  have d: "stateOfSeat (applyOp (BookSeats [mkSeat 1 4] User) (runOps [ToggleSeat 1 4])) 1 4 \<noteq> UserBooked"
    by (rule mp [OF no_direct_admin_to_user]) (rule a)
  from a b c d show ?thesis by (intro conjI)
qed

section \<open>Reservation ids\<close>

lemma resId_withId [simp]: "resId (withId i e) = i"
  by (simp add: withId_def)

lemma strict_last_max:
  fixes xs :: "int list"
  assumes "sorted_wrt (<) xs" "xs \<noteq> []"
  shows "Max (set xs) = last xs"
proof -
  from assms(2) obtain ys y where xs: "xs = ys @ [y]" by (metis rev_exhaust)
  with assms(1) have "\<forall>x\<in>set ys. x < y" by (simp add: sorted_wrt_append)
  then have "\<forall>x\<in>set xs. x \<le> y" using xs by auto
  then have "Max (set xs) = y" using xs by (intro Max_eqI) auto
  with xs show ?thesis by simp
qed

lemma newId_max:
  assumes "idsIncreasing rs"
  shows "newId rs = Max (insert 0 (resId ` set rs)) + 1"
proof (cases "rs = []")
  case True then show ?thesis by (simp add: newId_def)
next
  case False
  from assms have s: "sorted_wrt (<) (map resId rs)" and p: "\<forall>r\<in>set rs. 1 \<le> resId r"
    by (simp_all add: idsIncreasing_def list_all_iff)
  from False have ne: "map resId rs \<noteq> []" by simp
  from strict_last_max [OF s ne] have m: "Max (resId ` set rs) = resId (last rs)"
    by (simp add: last_map False)
  from p False have "0 \<le> resId (last rs)" by (metis last_in_set le_numeral_extra(3) order_trans zero_le_one) 
  with m False have "Max (insert 0 (resId ` set rs)) = resId (last rs)" by simp
  with False show ?thesis by (simp add: newId_def)
qed

lemma newId_above:
  assumes "idsIncreasing rs" "r \<in> set rs"
  shows "resId r < newId rs \<and> 1 \<le> newId rs"
proof -
  have fin: "finite (insert 0 (resId ` set rs))" by simp
  have "resId r \<le> Max (insert 0 (resId ` set rs))" using assms(2) by (intro Max_ge) auto
  moreover have "0 \<le> Max (insert 0 (resId ` set rs))" by (intro Max_ge) auto
  ultimately show ?thesis using newId_max [OF assms(1)] by simp
qed

lemma addReservation_increasing:
  assumes "idsIncreasing rs"
  shows "idsIncreasing (addReservation e rs)"
proof -
  have a: "\<forall>r\<in>set rs. resId r < newId rs" using newId_above [OF assms] by blast
  have b: "1 \<le> newId rs"
  proof (cases "rs = []")
    case True then show ?thesis by (simp add: newId_def)
  next
    case False
    then obtain r where "r \<in> set rs" by (cases rs) auto
    with newId_above [OF assms] show ?thesis by blast
  qed
  from assms a b show ?thesis
    by (simp add: idsIncreasing_def addReservation_def sorted_wrt_append list_all_iff)
qed

lemma sorted_wrt_splice1: "sorted_wrt P xs \<Longrightarrow> sorted_wrt P (splice1 i xs)"
proof -
  assume s: "sorted_wrt P xs"
  have "sorted_wrt P (take i xs) \<and> sorted_wrt P (drop i xs)
     \<and> (\<forall>x\<in>set (take i xs). \<forall>y\<in>set (drop i xs). P x y)"
    using s by (metis append_take_drop_id sorted_wrt_append)
  then have "sorted_wrt P (take i xs)" "sorted_wrt P (drop i xs)"
    "\<forall>x\<in>set (take i xs). \<forall>y\<in>set (drop i xs). P x y"
    by blast+
  moreover have "drop (Suc i) xs = tl (drop i xs)" by (simp add: drop_Suc tl_drop)
  moreover have "sorted_wrt P (tl (drop i xs))" using \<open>sorted_wrt P (drop i xs)\<close>
    by (cases "drop i xs") simp_all
  moreover have "set (tl (drop i xs)) \<subseteq> set (drop i xs)" by (cases "drop i xs") auto
  ultimately show ?thesis by (auto simp add: splice1_def sorted_wrt_append)
qed

lemma deleteReservation_increasing:
  assumes "idsIncreasing rs"
  shows "idsIncreasing (snd (deleteReservation i rs))"
proof (cases "findIndex (\<lambda>r. resId r = i) rs")
  case None with assms show ?thesis by (simp add: deleteReservation_def)
next
  case (Some k)
  from assms have "sorted_wrt (<) (splice1 k (map resId rs))"
    by (simp add: idsIncreasing_def sorted_wrt_splice1)
  moreover have "\<forall>r\<in>set (splice1 k rs). 1 \<le> resId r"
    using assms splice1_sub [of k rs] by (auto simp add: idsIncreasing_def list_all_iff)
  ultimately show ?thesis using Some
    by (simp add: deleteReservation_def idsIncreasing_def splice1_map list_all_iff)
qed


lemma findIndex_split:
  assumes "findIndex P xs = Some k"
  shows "\<exists>as b bs. xs = as @ b # bs \<and> length as = k \<and> P b \<and> (\<forall>a\<in>set as. \<not> P a)"
proof -
  from findIndex_Some [OF assms] have k: "k < length xs" "P (xs ! k)" "\<forall>j<k. \<not> P (xs ! j)"
    by blast+
  have 1: "xs = take k xs @ xs ! k # drop (Suc k) xs" using k(1) by (simp add: id_take_nth_drop)
  have 2: "length (take k xs) = k" using k(1) by simp
  have 3: "\<forall>a\<in>set (take k xs). \<not> P a"
  proof
    fix a assume "a \<in> set (take k xs)"
    then obtain j where "j < length (take k xs)" "take k xs ! j = a" by (auto simp add: in_set_conv_nth)
    with k(1,3) show "\<not> P a" by auto
  qed
  from 1 2 3 k(2) show ?thesis by blast
qed

lemma updateReservation_increasing:
  assumes "idsIncreasing rs"
  shows "idsIncreasing (snd (updateReservation i e rs))"
proof (cases "findIndex (\<lambda>r. resId r = i) rs")
  case None with assms show ?thesis by (simp add: updateReservation_def)
next
  case (Some k)
  from findIndex_Some [OF Some] have k: "k < length rs" "resId (rs ! k) = i" by blast+
  have "map resId (rs[k := withId i e]) = (map resId rs)[k := i]" by (simp add: map_update)
  also have "\<dots> = map resId rs" using k by (simp add: list_update_same_conv)
  finally have m: "map resId (rs[k := withId i e]) = map resId rs" .
  have "\<forall>r\<in>set rs. 1 \<le> resId r" using assms by (simp add: idsIncreasing_def list_all_iff)
  then have "\<forall>n\<in>set (map resId rs). 1 \<le> n" by simp
  then have "\<forall>n\<in>set (map resId (rs[k := withId i e])). 1 \<le> n" by (simp only: m)
  then have "\<forall>r\<in>set (rs[k := withId i e]). 1 \<le> resId r" by simp
  with assms m Some show ?thesis
    by (simp add: updateReservation_def idsIncreasing_def list_all_iff)
qed

lemma applyReservationOp_increasing:
  "idsIncreasing rs \<Longrightarrow> idsIncreasing (applyReservationOp op rs)"
  by (cases op)
     (simp_all add: addReservation_increasing deleteReservation_increasing
        updateReservation_increasing)

lemma runReservationOps_increasing: "idsIncreasing (runReservationOps ops)"
proof -
  have "idsIncreasing rs \<Longrightarrow> idsIncreasing (foldl (\<lambda>rs op. applyReservationOp op rs) rs ops)" for rs
    by (induction ops arbitrary: rs) (simp_all add: applyReservationOp_increasing)
  then show ?thesis by (simp add: runReservationOps_def idsIncreasing_def)
qed

lemma increasing_distinct: "idsIncreasing rs \<Longrightarrow> distinct (map resId rs)"
  by (simp add: idsIncreasing_def strict_sorted_iff)

text \<open>
  Claim C3 says that the new id is the largest stored id plus one for every stored list,
  and that the id of a deleted reservation is never assigned again. The code takes the id
  of the last stored reservation plus one: after two additions the ids are 1 and 2;
  deleting reservation 2 and adding again assigns 2 again. On a stored list with the ids
  5 and 2, in this order, the new id is 3.
\<close>

theorem addReservation_reuses_id:
  "map resId (runReservationOps [AddReservation sampleEntry, AddReservation sampleEntry]) = [1, 2]
   \<and> map resId (runReservationOps
        [AddReservation sampleEntry, AddReservation sampleEntry, DeleteReservation 2]) = [1]
   \<and> map resId (runReservationOps
        [AddReservation sampleEntry, AddReservation sampleEntry, DeleteReservation 2,
         AddReservation sampleEntry]) = [1, 2]
   \<and> newId [withId 5 sampleEntry, withId 2 sampleEntry] = 3"
  by code_simp

text \<open>
  Claim C3 as amended: \<open>addReservation\<close> appends the entry with the id of the last stored
  reservation plus one, or 1 when nothing is stored. The ids of every list built from the
  empty store by adding, deleting and updating are positive and strictly increasing; on
  every such list the new id is the largest stored id (0 when there is none) plus one and
  differs from the id of every stored reservation, and the list stays of this kind under
  each operation.
\<close>

theorem addReservation_id:
  "addReservation e rs = rs @ [withId (newId rs) e]
   \<and> newId rs = (if rs = [] then 1 else resId (last rs) + 1)
   \<and> idsIncreasing (runReservationOps ops)
   \<and> (idsIncreasing rs \<longrightarrow>
        newId rs = Max (insert 0 (resId ` set rs)) + 1
        \<and> newId rs \<notin> resId ` set rs
        \<and> distinct (map resId (addReservation e rs))
        \<and> idsIncreasing (applyReservationOp op rs))"
proof -
  have 1: "addReservation e rs = rs @ [withId (newId rs) e]" by (simp add: addReservation_def)
  have 2: "newId rs = (if rs = [] then 1 else resId (last rs) + 1)" by (simp add: newId_def)
  have 3: "idsIncreasing (runReservationOps ops)" by (rule runReservationOps_increasing)
  have 4: "newId rs = Max (insert 0 (resId ` set rs)) + 1
        \<and> newId rs \<notin> resId ` set rs
        \<and> distinct (map resId (addReservation e rs))
        \<and> idsIncreasing (applyReservationOp op rs)" if h: "idsIncreasing rs"
  proof -
    have "newId rs \<notin> resId ` set rs" using newId_above [OF h] by force
    moreover have "distinct (map resId (addReservation e rs))"
      using addReservation_increasing [OF h] by (rule increasing_distinct)
    ultimately show ?thesis using newId_max [OF h] applyReservationOp_increasing [OF h] by blast
  qed
  from 1 2 3 4 show ?thesis by blast
qed

theorem addReservation_id_witness:
  "idsIncreasing (runReservationOps [AddReservation sampleEntry, AddReservation sampleEntry])
   \<and> newId (runReservationOps [AddReservation sampleEntry, AddReservation sampleEntry]) = 3
   \<and> newId (runReservationOps [AddReservation sampleEntry, AddReservation sampleEntry])
        = Max (insert 0 (resId ` set
            (runReservationOps [AddReservation sampleEntry, AddReservation sampleEntry]))) + 1"
proof -
  let ?rs = "runReservationOps [AddReservation sampleEntry, AddReservation sampleEntry]"
  have a: "idsIncreasing ?rs" by code_simp
  have b: "newId ?rs = 3" by code_simp
  have "idsIncreasing ?rs \<longrightarrow>
        newId ?rs = Max (insert 0 (resId ` set ?rs)) + 1
        \<and> newId ?rs \<notin> resId ` set ?rs
        \<and> distinct (map resId (addReservation sampleEntry ?rs))
        \<and> idsIncreasing (applyReservationOp (DeleteReservation 1) ?rs)"
    by (rule conjunct2 [OF conjunct2 [OF conjunct2 [OF addReservation_id]]])
  with a have c: "newId ?rs = Max (insert 0 (resId ` set ?rs)) + 1" by blast
  from a b c show ?thesis by (intro conjI)
qed

section \<open>The table pack in the admin dashboard\<close>

lemma find_Some_split:
  "find P xs = Some x \<Longrightarrow> \<exists>as bs. xs = as @ x # bs \<and> (\<forall>a\<in>set as. \<not> P a) \<and> P x"
proof (induction xs)
  case Nil then show ?case by simp
next
  case (Cons y ys)
  show ?case
  proof (cases "P y")
    case True
    with Cons.prems have "y = x" by simp
    with True have "y # ys = [] @ x # ys \<and> (\<forall>a\<in>set []. \<not> P a) \<and> P x" by simp
    then show ?thesis by blast
  next
    case False
    with Cons.prems have "find P ys = Some x" by simp
    from Cons.IH [OF this] obtain as bs where "ys = as @ x # bs" "\<forall>a\<in>set as. \<not> P a" "P x" by blast
    with False have "y # ys = (y # as) @ x # bs \<and> (\<forall>a\<in>set (y # as). \<not> P a) \<and> P x" by simp
    then show ?thesis by blast
  qed
qed

lemma find_append_first: "\<forall>a\<in>set as. \<not> P a \<Longrightarrow> P x \<Longrightarrow> find P (as @ x # bs) = Some x"
  by (induction as) simp_all

lemma findIndex_append_first:
  "\<forall>a\<in>set as. \<not> P a \<Longrightarrow> P x \<Longrightarrow> findIndex P (as @ x # bs) = Some (length as)"
  by (induction as) simp_all

lemma updateReservation_split:
  assumes "\<forall>a\<in>set as. resId a \<noteq> i" "resId r = i"
  shows "snd (updateReservation i e (as @ r # bs)) = as @ withId i e # bs"
  using findIndex_append_first [of as "\<lambda>r. resId r = i" r bs] assms
  by (simp add: updateReservation_def)

lemma deleteReservation_split:
  assumes "\<forall>a\<in>set as. resId a \<noteq> i" "resId r = i"
  shows "snd (deleteReservation i (as @ r # bs)) = as @ bs"
  using findIndex_append_first [of as "\<lambda>r. resId r = i" r bs] assms
  by (simp add: deleteReservation_def splice1_def)

lemma includesStr_nonempty: "includesStr str (c # pat) \<Longrightarrow> str \<noteq> []"
  by (cases str) simp_all

lemma toLowerCase_nonempty: "toLowerCase str \<noteq> [] \<Longrightarrow> str \<noteq> []"
  by (simp add: toLowerCase_def)

lemma table_pack_nonempty:
  "includesStr (toLowerCase packName) ''table'' \<Longrightarrow> packName \<noteq> []"
  by (rule toLowerCase_nonempty) (rule includesStr_nonempty)

lemma adminSeatList_table:
  "includesStr (toLowerCase packName) ''table'' \<Longrightarrow>
   adminSeatList rnd packName t sel statuses
     = (map (mkSeat t) (filter (isFree statuses t) [1..10]), statuses)"
  by (simp add: adminSeatList_def isFree_def [abs_def])

lemma seats_withId [simp]: "seats (withId i e) = seats e"
  by (simp add: withId_def)

lemma addReservationAdmin_eq:
  assumes "newName form \<noteq> []" "newPhone form \<noteq> []" "selectedPackAdmin form \<noteq> []"
    and "selectedTableAdmin form = Some t"
    and "adminSeatList rnd (selectedPackAdmin form) t (selectedSeatAdmin form) (seatStatuses st)
           = (chosen, statuses)"
  shows "addReservationAdmin rnd now form st =
     \<lparr>reservations = addReservation
          \<lparr>name = newName form, phone = newPhone form, pack = selectedPackAdmin form,
           seats = chosen, timestamp = now\<rparr> (reservations st),
      seatStatuses = bookSeats chosen User statuses\<rparr>"
  using assms by (cases chosen) (simp_all add: addReservationAdmin_def Let_def)

lemma updateReservationAdmin_eq:
  assumes "editingId form = Some eid"
    and "newName form \<noteq> []" "newPhone form \<noteq> []" "selectedPackAdmin form \<noteq> []"
    and "selectedTableAdmin form = Some t"
    and "find (\<lambda>r. resId r = eid) (reservations st) = Some old"
    and "adminSeatList rnd (selectedPackAdmin form) t (selectedSeatAdmin form) (seatStatuses st)
           = (newSeats, statuses)"
  shows "updateReservationAdmin rnd now form st =
     \<lparr>reservations = snd (updateReservation eid
          \<lparr>name = newName form, phone = newPhone form, pack = selectedPackAdmin form,
           seats = newSeats, timestamp = now\<rparr> (reservations st)),
      seatStatuses = bookSeats newSeats User (unbookSeats (seats old) statuses)\<rparr>"
proof -
  have a: "(if length (seats old) > 0 then unbookSeats (seats old) statuses else statuses)
      = unbookSeats (seats old) statuses"
    by (cases "seats old") simp_all
  have b: "(if length newSeats > 0 then bookSeats newSeats User x else x) = bookSeats newSeats User x"
    for x by (cases newSeats) simp_all
  show ?thesis using assms by (simp add: updateReservationAdmin_def Let_def a b)
qed

text \<open>
  Claim C10: when the form is filled in and the lower-cased pack name includes "table",
  \<open>addReservationAdmin\<close> appends a reservation whose seats are exactly the seats of the
  selected table that have no status entry when it is called, in ascending order, and
  \<open>updateReservationAdmin\<close> replaces the edited reservation by one with exactly these
  seats (computed before the old seats are unbooked); when some seat of the table has a
  status entry, this list has fewer than ten seats.
\<close>

theorem admin_table_pack_seats:
  "newName form \<noteq> [] \<and> newPhone form \<noteq> []
     \<and> includesStr (toLowerCase (selectedPackAdmin form)) ''table''
     \<and> selectedTableAdmin form = Some t
   \<longrightarrow>
     reservations (addReservationAdmin rnd now form st)
       = reservations st
         @ [withId (newId (reservations st))
              \<lparr>name = newName form, phone = newPhone form, pack = selectedPackAdmin form,
               seats = map (mkSeat t) (filter (isFree (seatStatuses st) t) [1..10]),
               timestamp = now\<rparr>]
     \<and> (editingId form = Some eid \<and> find (\<lambda>r. resId r = eid) (reservations st) \<noteq> None
         \<longrightarrow> find (\<lambda>r. resId r = eid) (reservations (updateReservationAdmin rnd now form st))
             = Some (withId eid
                 \<lparr>name = newName form, phone = newPhone form, pack = selectedPackAdmin form,
                  seats = map (mkSeat t) (filter (isFree (seatStatuses st) t) [1..10]),
                  timestamp = now\<rparr>))
     \<and> (\<not> tableIsFree (seatStatuses st) t
         \<longrightarrow> length (map (mkSeat t) (filter (isFree (seatStatuses st) t) [1..10])) < 10)"
proof (intro impI, elim conjE)
  assume n: "newName form \<noteq> []" and p: "newPhone form \<noteq> []"
    and tp: "includesStr (toLowerCase (selectedPackAdmin form)) ''table''"
    and t: "selectedTableAdmin form = Some t"
  let ?free = "map (mkSeat t) (filter (isFree (seatStatuses st) t) [1..10])"
  let ?e = "\<lparr>name = newName form, phone = newPhone form, pack = selectedPackAdmin form,
             seats = ?free, timestamp = now\<rparr>"
  from tp have pk: "selectedPackAdmin form \<noteq> []" by (rule table_pack_nonempty)
  have sl: "adminSeatList rnd (selectedPackAdmin form) t (selectedSeatAdmin form) (seatStatuses st)
      = (?free, seatStatuses st)"
    using tp by (rule adminSeatList_table)
  have 1: "reservations (addReservationAdmin rnd now form st)
       = reservations st @ [withId (newId (reservations st)) ?e]"
    using addReservationAdmin_eq [OF n p pk t sl, of now] by (simp add: addReservation_def)
  have 2: "find (\<lambda>r. resId r = eid) (reservations (updateReservationAdmin rnd now form st))
             = Some (withId eid ?e)"
    if ed: "editingId form = Some eid" and f: "find (\<lambda>r. resId r = eid) (reservations st) \<noteq> None"
  proof -
    from f obtain old where old: "find (\<lambda>r. resId r = eid) (reservations st) = Some old" by blast
    from find_Some_split [OF old] obtain as bs where
      s: "reservations st = as @ old # bs" "\<forall>a\<in>set as. resId a \<noteq> eid" "resId old = eid"
      by blast
    have u: "snd (updateReservation eid ?e (reservations st)) = as @ withId eid ?e # bs"
      unfolding s(1) using s(2,3) by (rule updateReservation_split)
    have "reservations (updateReservationAdmin rnd now form st) = as @ withId eid ?e # bs"
      using updateReservationAdmin_eq [OF ed n p pk t old sl, of now] u by simp
    then show ?thesis using s(2) by (simp add: find_append_first)
  qed
  have 3: "length ?free < 10" if nf: "\<not> tableIsFree (seatStatuses st) t"
  proof -
    from nf obtain s where "s \<in> set [1..10]" "\<not> isFree (seatStatuses st) t s"
      by (auto simp add: tableIsFree_def list_all_iff)
    then have "length (filter (isFree (seatStatuses st) t) [1..10]) < length [1..10::int]"
      by (rule length_filter_less)
    then show ?thesis by simp
  qed
  from 1 2 3 show "reservations (addReservationAdmin rnd now form st)
       = reservations st @ [withId (newId (reservations st)) ?e]
     \<and> (editingId form = Some eid \<and> find (\<lambda>r. resId r = eid) (reservations st) \<noteq> None
         \<longrightarrow> find (\<lambda>r. resId r = eid) (reservations (updateReservationAdmin rnd now form st))
             = Some (withId eid ?e))
     \<and> (\<not> tableIsFree (seatStatuses st) t \<longrightarrow> length ?free < 10)"
    by blast
qed

theorem admin_table_pack_seats_witness:
  "\<not> tableIsFree (seatStatuses oneTicketStore) 1
   \<and> map seats (reservations (addReservationAdmin (\<lambda>i. 0) 7 tablePackForm oneTicketStore))
       = [[mkSeat 1 4], map (mkSeat 1) [1, 2, 3, 5, 6, 7, 8, 9, 10]]
   \<and> map_option seats (find (\<lambda>r. resId r = 1)
         (reservations (updateReservationAdmin (\<lambda>i. 0) 7 tablePackForm oneTicketStore)))
       = Some (map (mkSeat 1) [1, 2, 3, 5, 6, 7, 8, 9, 10])
   \<and> length (map (mkSeat 1) (filter (isFree (seatStatuses oneTicketStore) 1) [1..10])) < 10"
proof -
  have a: "\<not> tableIsFree (seatStatuses oneTicketStore) 1" by code_simp
  have b: "map seats (reservations (addReservationAdmin (\<lambda>i. 0) 7 tablePackForm oneTicketStore))
       = [[mkSeat 1 4], map (mkSeat 1) [1, 2, 3, 5, 6, 7, 8, 9, 10]]" by code_simp
  have c: "map_option seats (find (\<lambda>r. resId r = 1)
         (reservations (updateReservationAdmin (\<lambda>i. 0) 7 tablePackForm oneTicketStore)))
       = Some (map (mkSeat 1) [1, 2, 3, 5, 6, 7, 8, 9, 10])" by code_simp
  have g: "newName tablePackForm \<noteq> [] \<and> newPhone tablePackForm \<noteq> []
     \<and> includesStr (toLowerCase (selectedPackAdmin tablePackForm)) ''table''
     \<and> selectedTableAdmin tablePackForm = Some 1" by code_simp
  note th = mp [OF admin_table_pack_seats [of tablePackForm 1 "\<lambda>i. 0" 7 oneTicketStore 1] g]
  have d: "length (map (mkSeat 1) (filter (isFree (seatStatuses oneTicketStore) 1) [1..10])) < 10"
    by (rule mp [OF conjunct2 [OF conjunct2 [OF th]]]) (rule a)
  from a b c d show ?thesis by (intro conjI)
qed

section \<open>Reading unreadable data\<close>

text \<open>
  Claim C8 says that both readers return an empty collection whenever the persisted data
  is malformed or missing. For stored text that parses, the readers do not check the
  shape of the reservations at all and keep every item of the seat statuses: an array
  item that is not an object comes back as the entry (0, 0, user), and a parsed object
  comes back from \<open>getReservations\<close> as it is.
\<close>

theorem malformed_items_are_kept:
  "getSeatStatuses sampleParse (Some ''[7]'')
     = [\<lparr>rawTableId = Some (JNum 0), rawSeatId = Some (JNum 0), rawSource = User\<rparr>]
   \<and> getReservations sampleParse (Some ''{}'') = JObj []"
  by (simp add: getSeatStatuses_def getReservations_def statusOfItem_def sampleParse_def)

text \<open>
  Claim C8 as amended: when the persisted text is missing, empty, or not parseable as
  JSON, \<open>getReservations\<close> and \<open>getSeatStatuses\<close> both return the empty array and
  raise nothing; \<open>getSeatStatuses\<close> also returns the empty array when the text parses
  to something that is not an array.
\<close>

theorem unreadable_data_reads_as_empty:
  "(raw = None \<or> raw = Some [] \<or> (\<exists>txt. raw = Some txt \<and> parse txt = None)
      \<longrightarrow> getReservations parse raw = JArr [] \<and> getSeatStatuses parse raw = [])
   \<and> (parse txt = Some v \<and> (\<forall>items. v \<noteq> JArr items)
      \<longrightarrow> getSeatStatuses parse (Some txt) = [])"
proof -
  have 1: "getReservations parse raw = JArr [] \<and> getSeatStatuses parse raw = []"
    if "raw = None \<or> raw = Some [] \<or> (\<exists>txt. raw = Some txt \<and> parse txt = None)"
    using that by (auto simp add: getReservations_def getSeatStatuses_def)
  have 2: "getSeatStatuses parse (Some txt) = []"
    if "parse txt = Some v" "\<forall>items. v \<noteq> JArr items"
    using that by (cases v) (simp_all add: getSeatStatuses_def)
  from 1 2 show ?thesis by blast
qed

theorem unreadable_data_reads_as_empty_witness:
  "sampleParse ''{oops'' = None
   \<and> getReservations sampleParse (Some ''{oops'') = JArr []
   \<and> getSeatStatuses sampleParse (Some ''{oops'') = []
   \<and> getReservations sampleParse None = JArr []
   \<and> getSeatStatuses sampleParse None = []
   \<and> sampleParse ''{}'' = Some (JObj [])
   \<and> getSeatStatuses sampleParse (Some ''{}'') = []"
proof -
  have a: "sampleParse ''{oops'' = None" by (simp add: sampleParse_def)
  have b: "sampleParse ''{}'' = Some (JObj [])" by (simp add: sampleParse_def)
  have 1: "getReservations sampleParse (Some ''{oops'') = JArr []
           \<and> getSeatStatuses sampleParse (Some ''{oops'') = []"
    by (rule mp [OF conjunct1 [OF unreadable_data_reads_as_empty]]) (simp add: a)
  have 2: "getReservations sampleParse None = JArr [] \<and> getSeatStatuses sampleParse None = []"
    by (rule mp [OF conjunct1 [OF unreadable_data_reads_as_empty]]) simp
  have 3: "getSeatStatuses sampleParse (Some ''{}'') = []"
    by (rule mp [OF conjunct2 [OF unreadable_data_reads_as_empty [of _ _ "''{}''" "JObj []"]]])
       (simp add: b)
  from a b 1 2 3 show ?thesis by blast
qed

section \<open>Consistency of reservations and seat statuses\<close>

lemma bookSeats_twice: "bookSeats xs src (bookSeats xs src statuses) = bookSeats xs src statuses"
  by (rule bookSeats_present) (simp only: bookSeats_keys, simp)

lemma userSeats_append: "userSeats (xs @ ys) = userSeats xs @ userSeats ys"
  by (simp add: userSeats_def)

lemma userSeats_sub_keys: "set (userSeats statuses) \<subseteq> seatOf ` set statuses"
  by (auto simp add: userSeats_def)

lemma bookSeats_userSeats:
  "set (userSeats (bookSeats xs User statuses)) = set (userSeats statuses) \<union> (set xs - seatOf ` set statuses)"
proof -
  from bookSeats_append [of xs User statuses] obtain new where
    n: "bookSeats xs User statuses = statuses @ new" "\<forall>e\<in>set new. source e = User"
       "seatOf ` set new = set xs - seatOf ` set statuses"
    by blast
  from n(2) have "filter (\<lambda>e. source e = User) new = new" by (simp add: filter_id_conv)
  then have "set (userSeats new) = seatOf ` set new" by (simp add: userSeats_def)
  with n(1,3) show ?thesis by (simp add: userSeats_append)
qed

lemma unbookSeats_userSeats:
  "set (userSeats (unbookSeats xs statuses)) = set (userSeats statuses) - set xs"
  by (auto simp add: userSeats_def unbookSeats_eq)

lemma unbookSeats_keys:
  "seatOf ` set (unbookSeats xs statuses) = seatOf ` set statuses - set xs"
  by (auto simp add: unbookSeats_eq)

lemma reservedSeats_append [simp]:
  "reservedSeats (as @ bs) = reservedSeats as @ reservedSeats bs"
  by (simp add: reservedSeats_def)

lemma reservedSeats_Cons [simp]: "reservedSeats (r # rs) = seats r @ reservedSeats rs"
  by (simp add: reservedSeats_def)

lemma reservedSeats_Nil [simp]: "reservedSeats [] = []"
  by (simp add: reservedSeats_def)

lemma disjointSeats_middle:
  "disjointSeats (as @ r # bs) \<longleftrightarrow>
     disjointSeats (as @ bs) \<and> set (seats r) \<inter> set (reservedSeats (as @ bs)) = {}"
proof (induction as)
  case Nil
  show ?case by (auto simp add: list_all_iff)
next
  case (Cons a as)
  show ?case using Cons.IH by (auto simp add: list_all_iff)
qed

lemma disjointSeats_snoc:
  "disjointSeats (rs @ [r]) \<longleftrightarrow> disjointSeats rs \<and> set (seats r) \<inter> set (reservedSeats rs) = {}"
  using disjointSeats_middle [of rs r "[]"] by simp

lemma create_consistent:
  assumes c: "consistent st"
    and free: "set xs \<inter> seatOf ` set (seatStatuses st) = {}"
    and sx: "seats e = xs"
  shows "consistent \<lparr>reservations = addReservation e (reservations st),
                     seatStatuses = bookSeats xs User (seatStatuses st)\<rparr>"
proof -
  let ?rs = "reservations st" and ?sts = "seatStatuses st"
  from c have d: "disjointSeats ?rs" and eq: "set (reservedSeats ?rs) = set (userSeats ?sts)"
    and one: "oneEntryPerSeat ?sts" by (simp_all add: consistent_def)
  from eq userSeats_sub_keys [of ?sts] free have dis: "set xs \<inter> set (reservedSeats ?rs) = {}" by blast
  have 1: "disjointSeats (addReservation e ?rs)"
    using d dis sx by (simp add: addReservation_def disjointSeats_snoc)
  have "set (userSeats (bookSeats xs User ?sts)) = set (userSeats ?sts) \<union> set xs"
    using free by (simp only: bookSeats_userSeats) blast
  then have 2: "set (reservedSeats (addReservation e ?rs)) = set (userSeats (bookSeats xs User ?sts))"
    using eq sx by (simp add: addReservation_def Un_commute)
  have 3: "oneEntryPerSeat (bookSeats xs User ?sts)" using one by (rule bookSeats_oneEntryPerSeat)
  from 1 2 3 show ?thesis by (simp add: consistent_def)
qed

lemma delete_consistent:
  assumes c: "consistent st" and sp: "reservations st = as @ old # bs"
  shows "consistent \<lparr>reservations = as @ bs,
                     seatStatuses = unbookSeats (seats old) (seatStatuses st)\<rparr>"
proof -
  let ?sts = "seatStatuses st"
  from c sp have d: "disjointSeats (as @ old # bs)"
    and eq: "set (reservedSeats (as @ old # bs)) = set (userSeats ?sts)"
    and one: "oneEntryPerSeat ?sts" by (simp_all add: consistent_def)
  from d have d': "disjointSeats (as @ bs)" and dis: "set (seats old) \<inter> set (reservedSeats (as @ bs)) = {}"
    by (simp_all add: disjointSeats_middle)
  have "set (userSeats (unbookSeats (seats old) ?sts)) = set (userSeats ?sts) - set (seats old)"
    by (rule unbookSeats_userSeats)
  also have "\<dots> = set (reservedSeats (as @ bs))" using eq [symmetric] dis by auto
  finally have 2: "set (reservedSeats (as @ bs)) = set (userSeats (unbookSeats (seats old) ?sts))" by simp
  have 3: "oneEntryPerSeat (unbookSeats (seats old) ?sts)" using one by (rule unbookSeats_oneEntryPerSeat)
  from d' 2 3 show ?thesis by (simp add: consistent_def)
qed

lemma replace_consistent:
  assumes c: "consistent st" and sp: "reservations st = as @ old # bs"
    and ok: "\<forall>x\<in>set xs. x \<notin> seatOf ` set (seatStatuses st) \<or> x \<in> set (seats old)"
    and sx: "seats new = xs"
    and s1: "statuses = seatStatuses st
             \<or> (statuses = bookSeats xs User (seatStatuses st)
                 \<and> set xs \<inter> seatOf ` set (seatStatuses st) = {})"
  shows "consistent \<lparr>reservations = as @ new # bs,
                     seatStatuses = bookSeats xs User (unbookSeats (seats old) statuses)\<rparr>"
proof -
  let ?sts = "seatStatuses st"
  let ?K = "seatOf ` set ?sts"
  let ?U = "set (userSeats ?sts)"
  let ?old = "set (seats old)"
  let ?rest = "set (reservedSeats (as @ bs))"
  let ?final = "bookSeats xs User (unbookSeats (seats old) statuses)"
  from c sp have d: "disjointSeats (as @ old # bs)"
    and eq: "set (reservedSeats (as @ old # bs)) = ?U"
    and one: "oneEntryPerSeat ?sts" by (simp_all add: consistent_def)
  from d have d': "disjointSeats (as @ bs)" and dis: "?old \<inter> ?rest = {}"
    by (simp_all add: disjointSeats_middle)
  from eq have U: "?U = ?old \<union> ?rest" by auto
  have UK: "?U \<subseteq> ?K" by (rule userSeats_sub_keys)
  have xr: "set xs \<inter> ?rest = {}" using ok U UK dis by blast
  have 1: "disjointSeats (as @ new # bs)" using d' xr sx by (simp add: disjointSeats_middle)
  have one1: "oneEntryPerSeat statuses"
    using s1 one bookSeats_oneEntryPerSeat [OF one, of xs User] by auto
  have 3: "oneEntryPerSeat ?final"
    by (rule bookSeats_oneEntryPerSeat) (rule unbookSeats_oneEntryPerSeat, rule one1)
  have fin: "set (userSeats ?final) = set xs \<union> ?rest"
  proof -
    have f: "set (userSeats ?final)
        = (set (userSeats statuses) - ?old) \<union> (set xs - (seatOf ` set statuses - ?old))"
      by (simp only: bookSeats_userSeats unbookSeats_userSeats unbookSeats_keys)
    from s1 show ?thesis
    proof
      assume "statuses = ?sts"
      with f have "set (userSeats ?final) = (?U - ?old) \<union> (set xs - (?K - ?old))" by simp
      with ok U dis show ?thesis by auto
    next
      assume a: "statuses = bookSeats xs User ?sts \<and> set xs \<inter> ?K = {}"
      then have u1: "set (userSeats statuses) = ?U \<union> set xs"
        by (simp only: bookSeats_userSeats) blast
      from a have k1: "seatOf ` set statuses = ?K \<union> set xs" by (simp only: bookSeats_keys)
      from a U UK have xo: "set xs \<inter> ?old = {}" by blast
      from f u1 k1 have "set (userSeats ?final)
        = ((?U \<union> set xs) - ?old) \<union> (set xs - ((?K \<union> set xs) - ?old))" by simp
      with xo U dis show ?thesis by auto
    qed
  qed
  have 2: "set (reservedSeats (as @ new # bs)) = set (userSeats ?final)"
    using fin sx by auto
  from 1 2 3 show ?thesis by (simp add: consistent_def)
qed

lemma pack_nonempty:
  "includesStr (toLowerCase packName) (c # pat) \<Longrightarrow> packName \<noteq> []"
  by (rule toLowerCase_nonempty) (rule includesStr_nonempty)

lemma assignSeats_free:
  "assignSeats rnd count statuses = (xs, statuses') \<Longrightarrow>
     statuses' = bookSeats xs User statuses \<and> set xs \<inter> seatOf ` set statuses = {}"
  using chooseSeats_free [of rnd count statuses] by (auto simp add: assignSeats_def Let_def)

lemma adminSeatList_statuses:
  assumes "adminSeatList rnd packName t sel statuses = (xs, statuses')"
  shows "statuses' = statuses
         \<or> (statuses' = bookSeats xs User statuses \<and> set xs \<inter> seatOf ` set statuses = {})"
  using assms assignSeats_free [of rnd _ statuses xs statuses']
  by (auto simp add: adminSeatList_def Let_def split: if_splits option.splits)

lemma adminSeatList_offered:
  assumes sl: "adminSeatList rnd (selectedPackAdmin form) t (selectedSeatAdmin form) (seatStatuses st)
                 = (xs, statuses')"
    and t: "selectedTableAdmin form = Some t"
    and off: "seatOffered form st"
    and ed: "editingSeats =
                (case editingId form of
                   None \<Rightarrow> []
                 | Some eid \<Rightarrow>
                     (case find (\<lambda>r. resId r = eid) (reservations st) of
                        None \<Rightarrow> []
                      | Some r \<Rightarrow> seats r))"
  shows "\<forall>x\<in>set xs. x \<notin> seatOf ` set (seatStatuses st) \<or> x \<in> set editingSeats"
proof -
  let ?sts = "seatStatuses st"
  let ?pack = "selectedPackAdmin form"
  define F where "F = filter (\<lambda>s. \<not> occupied ?sts t s
                \<or> list_ex (\<lambda>x. tableId x = t \<and> seatId x = s) editingSeats) [1..10]"
  have F: "mkSeat t s \<notin> seatOf ` set ?sts \<or> mkSeat t s \<in> set editingSeats" if "s \<in> set F" for s
  proof -
    from that have "\<not> occupied ?sts t s \<or> list_ex (\<lambda>x. tableId x = t \<and> seatId x = s) editingSeats"
      unfolding F_def by (simp only: set_filter mem_Collect_eq)
    moreover have "list_ex (\<lambda>x. tableId x = t \<and> seatId x = s) editingSeats
        \<Longrightarrow> mkSeat t s \<in> set editingSeats"
    proof -
      assume "list_ex (\<lambda>x. tableId x = t \<and> seatId x = s) editingSeats"
      then obtain x where x: "x \<in> set editingSeats" "tableId x = t" "seatId x = s"
        by (auto simp add: list_ex_iff)
      from x(2,3) have "x = mkSeat t s" by (metis mkSeat_eta)
      with x(1) show ?thesis by simp
    qed
    ultimately show ?thesis by (auto simp add: occupied_iff)
  qed
  have avail: "getAvailableSeats form st =
      (if ?pack \<noteq> [] \<and> includesStr (toLowerCase ?pack) ''duo''
       then filter (\<lambda>seatNum. nextSeat seatNum \<in> set F) F else F)"
    unfolding F_def ed getAvailableSeats_def Let_def t by (simp only: option.case)
  show ?thesis
  proof (cases "includesStr (toLowerCase ?pack) ''table''")
    case True
    with sl have "xs = map (mkSeat t) (filter (\<lambda>s. \<not> occupied ?sts t s) [1..10])"
      by (auto simp add: adminSeatList_def Let_def simp del: upto_rec_numeral)
    then show ?thesis by (auto simp add: occupied_iff simp del: upto_rec_numeral)
  next
    case nt: False
    show ?thesis
    proof (cases "selectedSeatAdmin form")
      case None
      with sl nt have "assignSeats rnd 2 ?sts = (xs, statuses') \<or> assignSeats rnd 1 ?sts = (xs, statuses')"
        by (auto simp add: adminSeatList_def Let_def split: if_splits)
      with assignSeats_free [of rnd _ ?sts xs statuses'] have "set xs \<inter> seatOf ` set ?sts = {}" by blast
      then show ?thesis by blast
    next
      case (Some s)
      with off have mem: "s \<in> set (getAvailableSeats form st)" by (simp add: seatOffered_def)
      show ?thesis
      proof (cases "includesStr (toLowerCase ?pack) ''duo''")
        case True
        then have "?pack \<noteq> []" by (rule pack_nonempty)
        with True avail have "getAvailableSeats form st = filter (\<lambda>seatNum. nextSeat seatNum \<in> set F) F"
          by simp
        with mem have "s \<in> set F" "nextSeat s \<in> set F" by simp_all
        with F have "mkSeat t s \<notin> seatOf ` set ?sts \<or> mkSeat t s \<in> set editingSeats"
          "mkSeat t (nextSeat s) \<notin> seatOf ` set ?sts \<or> mkSeat t (nextSeat s) \<in> set editingSeats"
          by blast+
        moreover from sl nt True Some have "xs = [mkSeat t s, mkSeat t (nextSeat s)]"
          by (auto simp add: adminSeatList_def Let_def)
        ultimately show ?thesis by auto
      next
        case False
        with avail have "getAvailableSeats form st = F" by simp
        with mem have "s \<in> set F" by simp
        with F have "mkSeat t s \<notin> seatOf ` set ?sts \<or> mkSeat t s \<in> set editingSeats" by blast
        moreover from sl nt False Some have "xs = [mkSeat t s]"
          by (auto simp add: adminSeatList_def Let_def)
        ultimately show ?thesis by auto
      qed
    qed
  qed
qed

lemma pack_consistent:
  assumes c: "consistent st"
  shows "consistent (finalizePackReservation rnd now selectedPack formName formPhone st)"
proof (cases selectedPack)
  case None
  with c show ?thesis by (simp add: finalizePackReservation_def)
next
  case (Some packName)
  obtain xs statuses where a: "assignSeats rnd (packSeatCount packName) (seatStatuses st) = (xs, statuses)"
    by (cases "assignSeats rnd (packSeatCount packName) (seatStatuses st)") blast
  from assignSeats_free [OF a] have s: "statuses = bookSeats xs User (seatStatuses st)"
    and f: "set xs \<inter> seatOf ` set (seatStatuses st) = {}" by blast+
  let ?e = "\<lparr>name = formName, phone = formPhone, pack = packName, seats = xs, timestamp = now\<rparr>"
  have "consistent \<lparr>reservations = addReservation ?e (reservations st),
                     seatStatuses = bookSeats xs User (seatStatuses st)\<rparr>"
    using c f by (rule create_consistent) simp
  with Some a s show ?thesis by (simp add: finalizePackReservation_def)
qed

lemma seat_consistent:
  assumes c: "consistent st"
    and v: "list_all (\<lambda>i. \<not> occupied (seatStatuses st)
                      (tableId (seatOfGlobal i)) (seatId (seatOfGlobal i))) selectedSeats"
  shows "consistent (finalizeSeatReservation now selectedSeats formName formPhone st)"
proof (cases "selectedSeats = []")
  case True
  with c show ?thesis by (simp add: finalizeSeatReservation_def)
next
  case False
  let ?xs = "map seatOfGlobal selectedSeats"
  let ?e = "\<lparr>name = formName, phone = formPhone, pack = packNameOfCount (length selectedSeats),
             seats = ?xs, timestamp = now\<rparr>"
  from v have f: "set ?xs \<inter> seatOf ` set (seatStatuses st) = {}"
    by (auto simp add: list_all_iff occupied_seat_iff)
  have "consistent \<lparr>reservations = addReservation ?e (reservations st),
                     seatStatuses = bookSeats ?xs User (seatStatuses st)\<rparr>"
    using c f by (rule create_consistent) simp
  with False show ?thesis by (simp add: finalizeSeatReservation_def Let_def)
qed

lemma adminAdd_consistent:
  assumes c: "consistent st" and ed: "editingId form = None" and off: "seatOffered form st"
  shows "consistent (addReservationAdmin rnd now form st)"
proof (cases "newName form = [] \<or> newPhone form = [] \<or> selectedPackAdmin form = []
              \<or> selectedTableAdmin form = None")
  case True
  with c show ?thesis by (auto simp add: addReservationAdmin_def)
next
  case False
  then obtain t where g: "newName form \<noteq> []" "newPhone form \<noteq> []" "selectedPackAdmin form \<noteq> []"
    and t: "selectedTableAdmin form = Some t" by auto
  obtain xs statuses where sl:
    "adminSeatList rnd (selectedPackAdmin form) t (selectedSeatAdmin form) (seatStatuses st)
       = (xs, statuses)"
    by (cases "adminSeatList rnd (selectedPackAdmin form) t (selectedSeatAdmin form) (seatStatuses st)")
       blast
  let ?e = "\<lparr>name = newName form, phone = newPhone form, pack = selectedPackAdmin form,
             seats = xs, timestamp = now\<rparr>"
  have "\<forall>x\<in>set xs. x \<notin> seatOf ` set (seatStatuses st) \<or> x \<in> set []"
    using sl t off by (rule adminSeatList_offered) (simp add: ed)
  then have f: "set xs \<inter> seatOf ` set (seatStatuses st) = {}" by auto
  from adminSeatList_statuses [OF sl]
  have b: "bookSeats xs User statuses = bookSeats xs User (seatStatuses st)"
    by (auto simp add: bookSeats_twice)
  have "consistent \<lparr>reservations = addReservation ?e (reservations st),
                     seatStatuses = bookSeats xs User (seatStatuses st)\<rparr>"
    using c f by (rule create_consistent) simp
  with addReservationAdmin_eq [OF g t sl, of now] b show ?thesis by simp
qed

lemma adminUpdate_consistent:
  assumes c: "consistent st" and off: "seatOffered form st"
  shows "consistent (updateReservationAdmin rnd now form st)"
proof (cases "editingId form")
  case None
  with c show ?thesis by (simp add: updateReservationAdmin_def)
next
  case (Some eid)
  show ?thesis
  proof (cases "newName form = [] \<or> newPhone form = [] \<or> selectedPackAdmin form = []
              \<or> selectedTableAdmin form = None
              \<or> find (\<lambda>r. resId r = eid) (reservations st) = None")
    case True
    with c Some show ?thesis by (auto simp add: updateReservationAdmin_def split: option.splits)
  next
    case False
    then obtain t old where g: "newName form \<noteq> []" "newPhone form \<noteq> []" "selectedPackAdmin form \<noteq> []"
      and t: "selectedTableAdmin form = Some t"
      and old: "find (\<lambda>r. resId r = eid) (reservations st) = Some old" by auto
    obtain xs statuses where sl:
      "adminSeatList rnd (selectedPackAdmin form) t (selectedSeatAdmin form) (seatStatuses st)
         = (xs, statuses)"
      by (cases "adminSeatList rnd (selectedPackAdmin form) t (selectedSeatAdmin form) (seatStatuses st)")
         blast
    let ?e = "\<lparr>name = newName form, phone = newPhone form, pack = selectedPackAdmin form,
               seats = xs, timestamp = now\<rparr>"
    from find_Some_split [OF old] obtain as bs where
      sp: "reservations st = as @ old # bs" "\<forall>a\<in>set as. resId a \<noteq> eid" "resId old = eid"
      by blast
    have u: "snd (updateReservation eid ?e (reservations st)) = as @ withId eid ?e # bs"
      unfolding sp(1) using sp(2,3) by (rule updateReservation_split)
    have ok: "\<forall>x\<in>set xs. x \<notin> seatOf ` set (seatStatuses st) \<or> x \<in> set (seats old)"
      using sl t off by (rule adminSeatList_offered) (simp add: Some old)
    have "consistent \<lparr>reservations = as @ withId eid ?e # bs,
                       seatStatuses = bookSeats xs User (unbookSeats (seats old) statuses)\<rparr>"
      using c sp(1) ok _ adminSeatList_statuses [OF sl] by (rule replace_consistent) simp
    with updateReservationAdmin_eq [OF Some g t old sl, of now] u show ?thesis by simp
  qed
qed

lemma adminDelete_consistent:
  assumes c: "consistent st"
  shows "consistent (deleteReservationAdmin i st)"
proof (cases "find (\<lambda>r. resId r = i) (reservations st)")
  case None
  with c show ?thesis by (simp add: deleteReservationAdmin_def)
next
  case (Some old)
  from find_Some_split [OF Some] obtain as bs where
    sp: "reservations st = as @ old # bs" "\<forall>a\<in>set as. resId a \<noteq> i" "resId old = i"
    by blast
  have d: "snd (deleteReservation i (reservations st)) = as @ bs"
    unfolding sp(1) using sp(2,3) by (rule deleteReservation_split)
  from delete_consistent [OF c sp(1)] Some d show ?thesis
    by (simp add: deleteReservationAdmin_def)
qed

lemma reserved_is_user_booked:
  assumes c: "consistent st" and x: "x \<in> set (reservedSeats (reservations st))"
  shows "stateOfSeat (seatStatuses st) (tableId x) (seatId x) = UserBooked"
proof -
  from c have eq: "set (reservedSeats (reservations st)) = set (userSeats (seatStatuses st))"
    and one: "oneEntryPerSeat (seatStatuses st)" by (simp_all add: consistent_def)
  from x eq obtain e where e: "e \<in> set (seatStatuses st)" "source e = User" "seatOf e = x"
    by (auto simp add: userSeats_def)
  then have "e = mkStatus (tableId x) (seatId x) User"
    by (cases e) (auto simp add: seatOf_def mkSeat_def mkStatus_def)
  with e(1) one show ?thesis by (simp add: stateOfSeat_User)
qed

text \<open>
  Claim C1 says that after every operation on reservations the seats lists of the
  reservations are pairwise disjoint and together are the seats with a user entry. The
  operations take the seats the caller selected without looking at their status: adding
  from the dashboard a ticket for seat 1 of table 1 twice gives two reservations with
  that seat.
\<close>

theorem unvalidated_request_breaks_consistency:
  "consistent (perform (AdminAdd (\<lambda>i. 0) 7 ticketForm) emptyStore)
   \<and> perform (AdminAdd (\<lambda>i. 0) 8 ticketForm) (perform (AdminAdd (\<lambda>i. 0) 7 ticketForm) emptyStore)
       = \<lparr>reservations =
            [withId 1 \<lparr>name = ''Amal'', phone = ''0600'', pack = ''Ticket seul'',
                       seats = [mkSeat 1 1], timestamp = 7\<rparr>,
             withId 2 \<lparr>name = ''Amal'', phone = ''0600'', pack = ''Ticket seul'',
                       seats = [mkSeat 1 1], timestamp = 8\<rparr>],
          seatStatuses = [mkStatus 1 1 User]\<rparr>
   \<and> \<not> disjointSeats (reservations
         (perform (AdminAdd (\<lambda>i. 0) 8 ticketForm)
            (perform (AdminAdd (\<lambda>i. 0) 7 ticketForm) emptyStore)))"
  by code_simp

text \<open>
  Claim C1 as amended: the empty store is consistent, and from a consistent store every
  operation on reservations (pack reservation, seat reservation, and the dashboard's
  add, update and delete) leads to a consistent store, provided the seats selected
  explicitly passed the views' check: the seats picked on the public plan have no status
  entry, and the seat selected in the dashboard is one that \<open>getAvailableSeats\<close> offers.
  Consistent means: the seats lists of the reservations are pairwise disjoint, their union
  is the set of seats with a user entry, and no seat has two entries; so every seat of a
  reservation is shown as booked by a user, not as free or blocked.
\<close>

theorem validated_requests_keep_consistency:
  "consistent emptyStore
   \<and> (consistent st \<and> validated req st \<longrightarrow> consistent (perform req st))
   \<and> (consistent st \<and> x \<in> set (reservedSeats (reservations st))
        \<longrightarrow> stateOfSeat (seatStatuses st) (tableId x) (seatId x) = UserBooked)"
proof -
  have 1: "consistent emptyStore"
    by (simp add: consistent_def emptyStore_def userSeats_def oneEntryPerSeat_def)
  have 2: "consistent (perform req st)" if c: "consistent st" and v: "validated req st"
  proof (cases req)
    case (PackReservation rnd now selectedPack formName formPhone)
    with c show ?thesis by (simp add: pack_consistent)
  next
    case (SeatReservation now selectedSeats formName formPhone)
    with c v show ?thesis by (simp add: seat_consistent)
  next
    case (AdminAdd rnd now form)
    with c v show ?thesis by (simp add: adminAdd_consistent)
  next
    case (AdminUpdate rnd now form)
    with c v show ?thesis by (simp add: adminUpdate_consistent)
  next
    case (AdminDelete i)
    with c show ?thesis by (simp add: adminDelete_consistent)
  qed
  from 1 2 reserved_is_user_booked show ?thesis by blast
qed

theorem validated_requests_keep_consistency_witness:
  "consistent oneTicketStore
   \<and> validated (AdminUpdate (\<lambda>i. 0) 7 duoEditForm) oneTicketStore
   \<and> map seats (reservations (perform (AdminUpdate (\<lambda>i. 0) 7 duoEditForm) oneTicketStore))
        = [[mkSeat 1 4, mkSeat 1 5]]
   \<and> consistent (perform (AdminUpdate (\<lambda>i. 0) 7 duoEditForm) oneTicketStore)"
proof -
  have a: "consistent oneTicketStore" by code_simp
  have b: "validated (AdminUpdate (\<lambda>i. 0) 7 duoEditForm) oneTicketStore" by code_simp
  have c: "map seats (reservations (perform (AdminUpdate (\<lambda>i. 0) 7 duoEditForm) oneTicketStore))
        = [[mkSeat 1 4, mkSeat 1 5]]" by code_simp
  have d: "consistent (perform (AdminUpdate (\<lambda>i. 0) 7 duoEditForm) oneTicketStore)"
    by (rule mp [OF conjunct1 [OF conjunct2 [OF validated_requests_keep_consistency]]])
       (intro conjI a b)
  from a b c d show ?thesis by (intro conjI)
qed

end
